theory Spec2Isabelle
  imports Main "HOL-Library.AList" "HOL-Library.Multiset" "HOL-Library.Char_ord"
    "HOL-Library.List_Lexorder"
begin

section \<open>Data model of \<^verbatim>\<open>track_clones.py\<close>\<close>

text \<open>
  Python dictionaries keep their keys in insertion order, and the summary's cumulative
  top list depends on that order, so a dictionary is an association list with distinct
  keys: \<open>map_of\<close> is the lookup, \<open>AList.update\<close> is the assignment \<^verbatim>\<open>d[k] = v\<close> (an
  existing key keeps its position, a new key goes to the end) and \<open>length\<close> is
  \<^verbatim>\<open>len(d)\<close>. Python integers are unbounded: \<open>int\<close>. Day keys and timestamps are strings,
  compared as Python compares \<^verbatim>\<open>str\<close>: lexicographically, character by character.
\<close>

text \<open>One day of traffic, \<^verbatim>\<open>{"count": ..., "uniques": ...}\<close>.\<close>

record day_stats =
  count :: int
  uniques :: int

type_synonym ledger = "(string \<times> day_stats) list"

text \<open>One element of \<^verbatim>\<open>clone_data\<close>, as \<^verbatim>\<open>get_clone_stats\<close> builds it.\<close>

record repo_data =
  timestamp :: string
  date :: string
  repo_name :: string
  period_clones :: int
  period_unique :: int
  daily_breakdown :: ledger

text \<open>
  One value of \<^verbatim>\<open>cumulative_totals\<close>. A fresh entry has no \<^verbatim>\<open>"last_updated"\<close> key until the
  end of the loop body, hence the option.
\<close>

record repo_totals =
  total_clones :: int
  total_unique :: int
  first_tracked :: string
  last_updated :: "string option"

type_synonym cumulative = "(string \<times> repo_totals) list"
type_synonym daily = "(string \<times> ledger) list"

record historical_data =
  cumulative_totals :: cumulative
  daily_records :: daily
  last_run :: "string option"

text \<open>
  The line \<^verbatim>\<open>print(f"  -> Adding {count} clones from {day_str} for {repo_name}")\<close>,
  printed once for each addition to a running total.
\<close>

datatype adding = Adding (add_count: int) (add_day: string) (add_repo: string)

section \<open>\<^verbatim>\<open>calculate_cumulative_totals\<close>\<close>

text \<open>
  The body of the inner loop over \<^verbatim>\<open>repo["daily_breakdown"].items()\<close>, on the repository's
  ledger \<^verbatim>\<open>daily_records[repo_name]\<close>, its running \<^verbatim>\<open>total_clones\<close> and the printed lines.
\<close>

fun process_day :: "string \<Rightarrow> string \<times> day_stats \<Rightarrow> ledger \<times> int \<times> adding list
    \<Rightarrow> ledger \<times> int \<times> adding list" where
  "process_day name (day_str, stats) (led, clones, out) =
     (if map_of led day_str = None
      then (AList.update day_str \<lparr>count = count stats, uniques = uniques stats\<rparr> led,
            clones + count stats,
            out @ [Adding (count stats) day_str name])
      else (led, clones, out))"

definition process_days :: "string \<Rightarrow> ledger \<Rightarrow> ledger \<times> int \<times> adding list
    \<Rightarrow> ledger \<times> int \<times> adding list" where
  "process_days name breakdown st = fold (process_day name) breakdown st"

text \<open>
  The body of the outer loop, for one element of \<^verbatim>\<open>clone_data\<close>. \<open>cutoff_date\<close> is the
  string \<^verbatim>\<open>(datetime.now() - timedelta(days=30)).strftime("%Y-%m-%d")\<close>; the filter keeps a
  day when \<^verbatim>\<open>day >= cutoff_date\<close> as strings.
\<close>

definition new_totals :: "repo_data \<Rightarrow> repo_totals" where
  "new_totals repo =
     \<lparr>total_clones = 0, total_unique = 0, first_tracked = timestamp repo, last_updated = None\<rparr>"

definition process_repo :: "string \<Rightarrow> repo_data \<Rightarrow> cumulative \<times> daily \<times> adding list
    \<Rightarrow> cumulative \<times> daily \<times> adding list" where
  "process_repo cutoff_date repo st =
     (case st of (cumulative, daily, out) \<Rightarrow>
      let name = repo_name repo;
          cumulative1 = (if map_of cumulative name = None
                         then AList.update name (new_totals repo) cumulative else cumulative);
          daily1 = (if map_of daily name = None then AList.update name [] daily else daily);
          entry = (case map_of cumulative1 name of Some e \<Rightarrow> e | None \<Rightarrow> new_totals repo);
          led = (case map_of daily1 name of Some l \<Rightarrow> l | None \<Rightarrow> [])
      in case process_days name (daily_breakdown repo) (led, total_clones entry, out) of
           (led', clones', out') \<Rightarrow>
             (AList.update name
                (entry\<lparr>total_clones := clones',
                       total_unique := max (total_unique entry) (period_unique repo),
                       last_updated := Some (timestamp repo)\<rparr>) cumulative1,
              AList.update name (filter (\<lambda>(day, stats). day \<ge> cutoff_date) led') daily1,
              out'))"

text \<open>
  The wall clock is read in every iteration of the outer loop (line 166): \<open>cutoff_at i\<close>
  is the \<open>cutoff_date\<close> that iteration \<open>i\<close> computes, so the reports of one run may be
  pruned with different cutoffs when the run passes midnight. \<open>readings\<close> pairs every
  report of \<^verbatim>\<open>clone_data\<close> with the cutoff of its iteration, and \<open>process_all\<close> is the loop
  over these pairs.
\<close>

definition readings :: "(nat \<Rightarrow> string) \<Rightarrow> repo_data list \<Rightarrow> (string \<times> repo_data) list" where
  "readings cutoff_at clone_data = zip (map cutoff_at [0..<length clone_data]) clone_data"

definition process_all :: "(string \<times> repo_data) list \<Rightarrow> cumulative \<times> daily \<times> adding list
    \<Rightarrow> cumulative \<times> daily \<times> adding list" where
  "process_all steps st = fold (\<lambda>(cutoff_date, repo). process_repo cutoff_date repo) steps st"

text \<open>
  The function: both dictionaries are copied from the loaded state, the loop runs over
  \<^verbatim>\<open>clone_data\<close>, and the two dictionaries are returned. The printed lines are the third
  component. The parameter \<^verbatim>\<open>today\<close> is not used by the source.
\<close>

definition calculate_cumulative_totals :: "(nat \<Rightarrow> string) \<Rightarrow> repo_data list \<Rightarrow> historical_data
    \<Rightarrow> cumulative \<times> daily \<times> adding list" where
  "calculate_cumulative_totals cutoff_at clone_data historical =
     process_all (readings cutoff_at clone_data)
       (cumulative_totals historical, daily_records historical, [])"

text \<open>
  A sequence of runs: each run loads the two dictionaries the run before it stored (the
  summary file holds them under \<^verbatim>\<open>"cumulative_totals"\<close> and \<^verbatim>\<open>"daily_records"\<close>) and has
  its own clock readings and its own \<^verbatim>\<open>clone_data\<close>. The printed lines accumulate.
\<close>

fun run_cycle :: "(nat \<Rightarrow> string) \<times> repo_data list \<Rightarrow> cumulative \<times> daily \<times> adding list
    \<Rightarrow> cumulative \<times> daily \<times> adding list" where
  "run_cycle (cutoff_at, clone_data) (cumulative, daily, out) =
     (case calculate_cumulative_totals cutoff_at clone_data
             \<lparr>cumulative_totals = cumulative, daily_records = daily, last_run = None\<rparr> of
        (cumulative', daily', out') \<Rightarrow> (cumulative', daily', out @ out'))"

definition run_cycles :: "((nat \<Rightarrow> string) \<times> repo_data list) list
    \<Rightarrow> cumulative \<times> daily \<times> adding list
    \<Rightarrow> cumulative \<times> daily \<times> adding list" where
  "run_cycles cycles st = fold run_cycle cycles st"

section \<open>\<^verbatim>\<open>update_clone_summary\<close>\<close>

text \<open>
  An element of a \<^verbatim>\<open>"top_repositories"\<close> list. The cumulative list's elements have the keys
  \<^verbatim>\<open>name, total_clones, total_unique\<close> and the period list's \<^verbatim>\<open>name, period_clones,
  period_unique\<close>; \<open>clones\<close> and \<open>unique_clones\<close> stand for the second and third key of both.
\<close>

record top_entry =
  name :: string
  clones :: int
  unique_clones :: int

text \<open>
  \<^verbatim>\<open>period_stats\<close> and \<^verbatim>\<open>cumulative_stats\<close>; \<open>stats_total_clones\<close> is the key
  \<^verbatim>\<open>"total_clones"\<close>.
\<close>

record stats =
  description :: string
  stats_total_clones :: int
  total_unique_clones :: int
  repositories_tracked :: nat
  repositories_with_clones :: nat
  top_repositories :: "top_entry list"

text \<open>
  The summary object; \<open>summary_last_updated\<close>, \<open>summary_cumulative_totals\<close> and
  \<open>summary_daily_records\<close> are the keys \<^verbatim>\<open>"last_updated"\<close>, \<^verbatim>\<open>"cumulative_totals"\<close> and
  \<^verbatim>\<open>"daily_records"\<close>.
\<close>

record summary =
  summary_last_updated :: string
  last_run_date :: string
  period_stats :: stats
  cumulative_stats :: stats
  summary_cumulative_totals :: cumulative
  summary_daily_records :: daily

text \<open>
  \<^verbatim>\<open>sorted(xs, key=..., reverse=True)\<close> on integer keys. Python's sort is stable and
  \<^verbatim>\<open>reverse=True\<close> keeps the original order of elements with equal keys, so it is the
  stable insertion sort of the library on the negated key.
\<close>

definition sorted_reverse :: "('a \<Rightarrow> int) \<Rightarrow> 'a list \<Rightarrow> 'a list" where
  "sorted_reverse key xs = sort_key (\<lambda>x. - key x) xs"

definition top_clones_cumulative :: "cumulative \<Rightarrow> top_entry list" where
  "top_clones_cumulative cumulative =
     take 10 (sorted_reverse clones
       (map (\<lambda>(n, data). \<lparr>name = n, clones = total_clones data,
                           unique_clones = total_unique data\<rparr>) cumulative))"

definition top_clones_period :: "repo_data list \<Rightarrow> top_entry list" where
  "top_clones_period clone_data =
     take 10 (sorted_reverse clones
       (map (\<lambda>r. \<lparr>name = repo_name r, clones = period_clones r,
                  unique_clones = period_unique r\<rparr>) clone_data))"

definition make_summary :: "repo_data list \<Rightarrow> string \<Rightarrow> string \<Rightarrow> cumulative \<Rightarrow> daily
    \<Rightarrow> summary" where
  "make_summary clone_data ts today cumulative daily =
     \<lparr>summary_last_updated = ts,
      last_run_date = today,
      period_stats =
        \<lparr>description = ''Clone statistics for the last 14 days'',
         stats_total_clones = sum_list (map period_clones clone_data),
         total_unique_clones = sum_list (map period_unique clone_data),
         repositories_tracked = length clone_data,
         repositories_with_clones = length (filter (\<lambda>r. period_clones r > 0) clone_data),
         top_repositories = top_clones_period clone_data\<rparr>,
      cumulative_stats =
        \<lparr>description = ''All-time cumulative clone statistics (since tracking began)'',
         stats_total_clones = sum_list (map (\<lambda>(n, r). total_clones r) cumulative),
         total_unique_clones = sum_list (map (\<lambda>(n, r). total_unique r) cumulative),
         repositories_tracked = length cumulative,
         repositories_with_clones =
           length (filter (\<lambda>(n, r). total_clones r > 0) cumulative),
         top_repositories = top_clones_cumulative cumulative\<rparr>,
      summary_cumulative_totals = cumulative,
      summary_daily_records = daily\<rparr>"

section \<open>Files, fetching and \<^verbatim>\<open>main\<close>\<close>

text \<open>
  The two files under \<^verbatim>\<open>data/\<close>: \<open>None\<close> is a file that does not exist. The CSV log is its
  lines; the summary file either holds a summary this program wrote or does not parse.
\<close>

datatype csv_line = Header | Row string string string int int

datatype summary_content = Unparsable | Written summary

record files =
  csv_file :: "csv_line list option"
  summary_file :: "summary_content option"

definition load_historical_data :: "files \<Rightarrow> historical_data" where
  "load_historical_data fs =
     (case summary_file fs of
        Some (Written s) \<Rightarrow>
          \<lparr>cumulative_totals = summary_cumulative_totals s,
           daily_records = summary_daily_records s,
           last_run = Some (summary_last_updated s)\<rparr>
      | _ \<Rightarrow> \<lparr>cumulative_totals = [], daily_records = [], last_run = None\<rparr>)"

definition update_csv :: "repo_data list \<Rightarrow> files \<Rightarrow> files" where
  "update_csv clone_data fs =
     fs\<lparr>csv_file := Some ((case csv_file fs of None \<Rightarrow> [Header] | Some ls \<Rightarrow> ls)
          @ map (\<lambda>d. Row (timestamp d) (date d) (repo_name d) (period_clones d)
                        (period_unique d)) clone_data)\<rparr>"

definition update_clone_summary :: "repo_data list \<Rightarrow> string \<Rightarrow> string \<Rightarrow> cumulative \<Rightarrow> daily
    \<Rightarrow> files \<Rightarrow> files" where
  "update_clone_summary clone_data ts today cumulative daily fs =
     fs\<lparr>summary_file := Some (Written (make_summary clone_data ts today cumulative daily))\<rparr>"

text \<open>
  What the run finds outside: the two environment variables, the answer of the provider
  (an exception, or the user's repositories, each with its name and the result of
  \<^verbatim>\<open>get_clones_traffic()\<close>: an exception, or the period's \<^verbatim>\<open>count\<close>, \<^verbatim>\<open>uniques\<close> and the
  days as \<^verbatim>\<open>(timestamp.strftime("%Y-%m-%d"), count, uniques)\<close>), and the strings made
  from the clock: the timestamp, today's date, and the cutoff date that each iteration of
  the reconciliation loop computes.
\<close>

datatype error = ValueError | ProviderError string

record clones_traffic =
  traffic_count :: int
  traffic_uniques :: int
  traffic_clones :: "(string \<times> int \<times> int) list"

record environment =
  GITHUB_TOKEN :: "string option"
  GITHUB_USERNAME :: "string option"
  get_repos :: "error + (string \<times> (error + clones_traffic)) list"
  now_timestamp :: string
  now_today :: string
  now_cutoff_date :: "nat \<Rightarrow> string"

text \<open>The body of the loop over \<^verbatim>\<open>user.get_repos()\<close>, on \<^verbatim>\<open>(clone_data, successful, failed)\<close>.\<close>

fun fetch_repo :: "string \<Rightarrow> string \<Rightarrow> string \<times> (error + clones_traffic)
    \<Rightarrow> repo_data list \<times> nat \<times> nat \<Rightarrow> repo_data list \<times> nat \<times> nat" where
  "fetch_repo ts today (repo, Inl e) (clone_data, successful, failed) =
     (clone_data, successful, failed + 1)"
| "fetch_repo ts today (repo, Inr c) (clone_data, successful, failed) =
     (clone_data @
        [\<lparr>timestamp = ts, date = today, repo_name = repo,
          period_clones = traffic_count c, period_unique = traffic_uniques c,
          daily_breakdown =
            fold (\<lambda>(day_str, n, u) daily_clones.
                    AList.update day_str \<lparr>count = n, uniques = u\<rparr> daily_clones)
                 (traffic_clones c) []\<rparr>],
      successful + 1, failed)"

definition get_clone_stats :: "environment \<Rightarrow> error + (repo_data list \<times> string \<times> string)" where
  "get_clone_stats env =
     (if GITHUB_TOKEN env = None \<or> GITHUB_TOKEN env = Some []
         \<or> GITHUB_USERNAME env = None \<or> GITHUB_USERNAME env = Some []
      then Inl ValueError
      else case get_repos env of
             Inl e \<Rightarrow> Inl e
           | Inr repos \<Rightarrow>
               Inr (fst (fold (fetch_repo (now_timestamp env) (now_today env)) repos ([], 0, 0)),
                    now_timestamp env, now_today env))"

text \<open>
  \<^verbatim>\<open>main\<close>: the files after the run, and either the exception it re-raises or how it
  ended: the success line, or the two warning lines of the \<^verbatim>\<open>else\<close> branch.
\<close>

datatype ending = Completed | No_clone_data_warning

definition main :: "environment \<Rightarrow> files \<Rightarrow> files \<times> (error + ending)" where
  "main env fs =
     (let historical = load_historical_data fs
      in case get_clone_stats env of
           Inl e \<Rightarrow> (fs, Inl e)
         | Inr (clone_data, ts, today) \<Rightarrow>
             if clone_data \<noteq> []
             then (case calculate_cumulative_totals (now_cutoff_date env) clone_data historical of
                     (cumulative, daily, out) \<Rightarrow>
                       (update_clone_summary clone_data ts today cumulative daily
                          (update_csv clone_data fs),
                        Inr Completed))
             else (fs, Inr No_clone_data_warning))"

section \<open>Notions used in the statements\<close>

text \<open>
  The entries of a breakdown that the inner loop adds to a ledger, in the order it adds
  them: those whose day is in the ledger neither at the start nor by an earlier entry.
\<close>

fun added_days :: "ledger \<Rightarrow> ledger \<Rightarrow> ledger" where
  "added_days led [] = []"
| "added_days led ((day_str, stats) # breakdown) =
     (if map_of led day_str = None
      then (day_str, stats) # added_days (led @ [(day_str, stats)]) breakdown
      else added_days led breakdown)"

text \<open>What a repository's ledger records for a day (nothing when the repository has none).\<close>

definition ledger_at :: "daily \<Rightarrow> string \<Rightarrow> string \<Rightarrow> day_stats option" where
  "ledger_at daily r d = (case map_of daily r of None \<Rightarrow> None | Some led \<Rightarrow> map_of led d)"

text \<open>
  A repository's \<^verbatim>\<open>total_clones\<close> and \<^verbatim>\<open>total_unique\<close>, counted from 0 for a repository
  that has no entry yet, as the loop initialises it.
\<close>

definition total_of :: "cumulative \<Rightarrow> string \<Rightarrow> int" where
  "total_of cumulative r = (case map_of cumulative r of None \<Rightarrow> 0 | Some e \<Rightarrow> total_clones e)"

definition unique_of :: "cumulative \<Rightarrow> string \<Rightarrow> int" where
  "unique_of cumulative r = (case map_of cumulative r of None \<Rightarrow> 0 | Some e \<Rightarrow> total_unique e)"

text \<open>The printed additions that concern one repository, and one day of it.\<close>

definition additions :: "string \<Rightarrow> adding list \<Rightarrow> adding list" where
  "additions r out = filter (\<lambda>m. add_repo m = r) out"

definition additions_on :: "string \<Rightarrow> string \<Rightarrow> adding list \<Rightarrow> adding list" where
  "additions_on r d out = filter (\<lambda>m. add_repo m = r \<and> add_day m = d) out"

text \<open>
  Everything a sequence of runs reports for one repository, run after run and report
  after report; \<open>map_of\<close> of it gives, for a day, the entry reported first.
\<close>

definition reported :: "string \<Rightarrow> ((nat \<Rightarrow> string) \<times> repo_data list) list \<Rightarrow> ledger" where
  "reported r cycles =
     concat (map (\<lambda>(cutoff_at, clone_data).
       concat (map daily_breakdown (filter (\<lambda>repo. repo_name repo = r) clone_data))) cycles)"

text \<open>
  One iteration of the outer loop seen on the dictionaries as finite maps, that is, up
  to the order of the keys of the two outer dictionaries.
\<close>

definition merge_report :: "string \<Rightarrow> repo_data
    \<Rightarrow> (string \<rightharpoonup> repo_totals) \<times> (string \<rightharpoonup> ledger)
    \<Rightarrow> (string \<rightharpoonup> repo_totals) \<times> (string \<rightharpoonup> ledger)" where
  "merge_report cutoff_date repo m =
     (case m of (totals, ledgers) \<Rightarrow>
      let nm = repo_name repo;
          entry = (case totals nm of Some e \<Rightarrow> e | None \<Rightarrow> new_totals repo);
          led = (case ledgers nm of Some l \<Rightarrow> l | None \<Rightarrow> []);
          added = added_days led (daily_breakdown repo)
      in (totals(nm \<mapsto>
            entry\<lparr>total_clones := total_clones entry + sum_list (map (\<lambda>(d, s). count s) added),
                   total_unique := max (total_unique entry) (period_unique repo),
                   last_updated := Some (timestamp repo)\<rparr>),
          ledgers(nm \<mapsto> filter (\<lambda>(day, stats). day \<ge> cutoff_date) (led @ added))))"

section \<open>Concrete inputs\<close>

text \<open>
  Two runs on one repository whose windows overlap on 2024-01-02: the second run
  reports another count for that day.
\<close>

definition scenario_report_1 :: repo_data where
  "scenario_report_1 =
     \<lparr>timestamp = ''2024-01-03 06:00:00'', date = ''2024-01-03'', repo_name = ''X'',
      period_clones = 8, period_unique = 5,
      daily_breakdown = [(''2024-01-01'', \<lparr>count = 3, uniques = 2\<rparr>),
                         (''2024-01-02'', \<lparr>count = 5, uniques = 4\<rparr>)]\<rparr>"

definition scenario_report_2 :: repo_data where
  "scenario_report_2 =
     \<lparr>timestamp = ''2024-01-04 06:00:00'', date = ''2024-01-04'', repo_name = ''X'',
      period_clones = 100, period_unique = 6,
      daily_breakdown = [(''2024-01-02'', \<lparr>count = 99, uniques = 99\<rparr>),
                         (''2024-01-03'', \<lparr>count = 1, uniques = 1\<rparr>)]\<rparr>"

definition scenario_cycles :: "((nat \<Rightarrow> string) \<times> repo_data list) list" where
  "scenario_cycles =
     [(\<lambda>i. ''2023-12-04'', [scenario_report_1]), (\<lambda>i. ''2023-12-05'', [scenario_report_2])]"

text \<open>The state the first of the two runs stores.\<close>

definition scenario_state_1 :: historical_data where
  "scenario_state_1 =
     \<lparr>cumulative_totals =
        [(''X'', \<lparr>total_clones = 8, total_unique = 5, first_tracked = ''2024-01-03 06:00:00'',
                  last_updated = Some ''2024-01-03 06:00:00''\<rparr>)],
      daily_records =
        [(''X'', [(''2024-01-01'', \<lparr>count = 3, uniques = 2\<rparr>),
                  (''2024-01-02'', \<lparr>count = 5, uniques = 4\<rparr>)])],
      last_run = Some ''2024-01-03 06:00:00''\<rparr>"

text \<open>
  A stored state with a second repository \<open>A\<close> whose ledger holds a day long before any
  cutoff used below.
\<close>

definition two_repo_state :: historical_data where
  "two_repo_state =
     \<lparr>cumulative_totals =
        [(''A'', \<lparr>total_clones = 4, total_unique = 1, first_tracked = ''2023-01-02 06:00:00'',
                  last_updated = Some ''2023-01-02 06:00:00''\<rparr>),
         (''X'', \<lparr>total_clones = 8, total_unique = 5, first_tracked = ''2024-01-03 06:00:00'',
                  last_updated = Some ''2024-01-03 06:00:00''\<rparr>)],
      daily_records =
        [(''A'', [(''2023-01-01'', \<lparr>count = 4, uniques = 1\<rparr>)]),
         (''X'', [(''2024-01-01'', \<lparr>count = 3, uniques = 2\<rparr>),
                  (''2024-01-02'', \<lparr>count = 5, uniques = 4\<rparr>)])],
      last_run = Some ''2024-01-03 06:00:00''\<rparr>"

text \<open>A report for the second repository.\<close>

definition report_a :: repo_data where
  "report_a =
     \<lparr>timestamp = ''2024-01-04 06:00:00'', date = ''2024-01-04'', repo_name = ''A'',
      period_clones = 9, period_unique = 3,
      daily_breakdown = [(''2023-12-30'', \<lparr>count = 2, uniques = 1\<rparr>),
                         (''2024-01-02'', \<lparr>count = 7, uniques = 3\<rparr>)]\<rparr>"

text \<open>
  The state stored by a run with cutoff 2024-01-03 on the second scenario report: the
  days before the cutoff are gone from the ledger of \<open>X\<close>, their counts are in the total.
\<close>

definition pruned_state :: historical_data where
  "pruned_state =
     \<lparr>cumulative_totals =
        [(''X'', \<lparr>total_clones = 9, total_unique = 6, first_tracked = ''2024-01-03 06:00:00'',
                  last_updated = Some ''2024-01-04 06:00:00''\<rparr>)],
      daily_records = [(''X'', [(''2024-01-03'', \<lparr>count = 1, uniques = 1\<rparr>)])],
      last_run = Some ''2024-01-04 06:00:00''\<rparr>"

text \<open>
  A run's surroundings: the provider answers for \<open>X\<close> and refuses \<open>Y\<close>; and one where it
  refuses both. The files hold the state with the two repositories \<open>A\<close> and \<open>X\<close>.
\<close>

definition example_environment :: environment where
  "example_environment =
     \<lparr>GITHUB_TOKEN = Some ''token'', GITHUB_USERNAME = Some ''user'',
      get_repos = Inr [(''X'', Inr \<lparr>traffic_count = 100, traffic_uniques = 6,
                                    traffic_clones = [(''2024-01-02'', 99, 99),
                                                      (''2024-01-03'', 1, 1)]\<rparr>),
                       (''Y'', Inl (ProviderError ''403''))],
      now_timestamp = ''2024-01-04 06:00:00'', now_today = ''2024-01-04'',
      now_cutoff_date = (\<lambda>i. ''2023-12-05'')\<rparr>"

definition failing_environment :: environment where
  "failing_environment =
     \<lparr>GITHUB_TOKEN = Some ''token'', GITHUB_USERNAME = Some ''user'',
      get_repos = Inr [(''X'', Inl (ProviderError ''403'')),
                       (''Y'', Inl (ProviderError ''403''))],
      now_timestamp = ''2024-01-04 06:00:00'', now_today = ''2024-01-04'',
      now_cutoff_date = (\<lambda>i. ''2023-12-05'')\<rparr>"

definition example_files :: files where
  "example_files =
     \<lparr>csv_file = Some [Header, Row ''2024-01-03 06:00:00'' ''2024-01-03'' ''X'' 8 5],
      summary_file = Some (Written (make_summary [scenario_report_1] ''2024-01-03 06:00:00''
        ''2024-01-03'' (cumulative_totals two_repo_state) (daily_records two_repo_state)))\<rparr>"

text \<open>
  A run that passes midnight between its two iterations: the first iteration computes
  the cutoff 2023-12-05, the second 2023-12-06. Both repositories hold 2023-12-05.
\<close>

definition midnight_clock :: "nat \<Rightarrow> string" where
  "midnight_clock i = (if i = 0 then ''2023-12-05'' else ''2023-12-06'')"

definition midnight_state :: historical_data where
  "midnight_state =
     \<lparr>cumulative_totals =
        [(''A'', \<lparr>total_clones = 4, total_unique = 1, first_tracked = ''2023-12-06 06:00:00'',
                  last_updated = Some ''2023-12-06 06:00:00''\<rparr>),
         (''X'', \<lparr>total_clones = 2, total_unique = 1, first_tracked = ''2023-12-06 06:00:00'',
                  last_updated = Some ''2023-12-06 06:00:00''\<rparr>)],
      daily_records =
        [(''A'', [(''2023-12-05'', \<lparr>count = 4, uniques = 1\<rparr>)]),
         (''X'', [(''2023-12-05'', \<lparr>count = 2, uniques = 1\<rparr>)])],
      last_run = Some ''2023-12-06 06:00:00''\<rparr>"

section \<open>The inner loop\<close>

lemma update_absent: "map_of al k = None \<Longrightarrow> AList.update k v al = al @ [(k, v)]"
  by (induction al) (auto split: if_splits)

lemma day_stats_copy: "\<lparr>count = count (s::day_stats), uniques = uniques s\<rparr> = s"
  by simp

lemma process_days_closed:
  "process_days nm bd (led, c, out) =
     (led @ added_days led bd,
      c + sum_list (map (\<lambda>(d, s). count s) (added_days led bd)),
      out @ map (\<lambda>(d, s). Adding (count s) d nm) (added_days led bd))"
  unfolding process_days_def
proof (induction bd arbitrary: led c out)
  case Nil
  show ?case by simp
next
  case (Cons p bd)
  obtain d s where p: "p = (d, s)" by (cases p)
  show ?case
  proof (cases "map_of led d = None")
    case True
    then show ?thesis using Cons[of "led @ [(d, s)]" "c + count s" "out @ [Adding (count s) d nm]"]
      by (simp add: p update_absent day_stats_copy add.assoc)
  next
    case False
    then show ?thesis using Cons[of led c out] by (auto simp add: p)
  qed
qed

lemma added_days_filter:
  "filter (\<lambda>(d', s). d' = d) (added_days led bd) =
     (if map_of led d = None then (case map_of bd d of None \<Rightarrow> [] | Some s \<Rightarrow> [(d, s)]) else [])"
proof (induction bd arbitrary: led)
  case Nil
  show ?case by simp
next
  case (Cons p bd)
  obtain d' s' where p: "p = (d', s')" by (cases p)
  show ?case using Cons[of led] Cons[of "led @ [(d', s')]"]
    by (auto simp add: p map_add_def split: option.splits)
qed

lemma map_of_added_days:
  "map_of (led @ added_days led bd) = map_of bd ++ map_of led"
proof (induction bd arbitrary: led)
  case Nil
  show ?case by simp
next
  case (Cons p bd)
  obtain d' s' where p: "p = (d', s')" by (cases p)
  show ?case
  proof (cases "map_of led d' = None")
    case True
    have "map_of (led @ (d', s') # added_days (led @ [(d', s')]) bd)
        = map_of ((led @ [(d', s')]) @ added_days (led @ [(d', s')]) bd)" by simp
    also have "\<dots> = map_of bd ++ map_of (led @ [(d', s')])" by (rule Cons.IH)
    also have "\<dots> = map_of ((d', s') # bd) ++ map_of led"
      using True by (auto simp add: fun_eq_iff map_add_def split: option.splits)
    finally have *: "map_of (led @ (d', s') # added_days (led @ [(d', s')]) bd)
        = map_of ((d', s') # bd) ++ map_of led" .
    have "added_days led (p # bd) = (d', s') # added_days (led @ [(d', s')]) bd"
      using True by (simp add: p)
    then show ?thesis using * by (simp only: p)
  next
    case False
    then show ?thesis using Cons.IH[of led]
      by (auto simp add: p fun_eq_iff map_add_def split: option.splits)
  qed
qed

lemma added_days_distinct:
  "distinct (map fst bd) \<Longrightarrow>
   added_days led bd = filter (\<lambda>(d, s). map_of led d = None) bd"
proof (induction bd arbitrary: led)
  case Nil
  show ?case by simp
next
  case (Cons p bd)
  obtain d' s' where p: "p = (d', s')" by (cases p)
  have ne: "\<And>d s. (d, s) \<in> set bd \<Longrightarrow> d \<noteq> d'"
    using Cons.prems by (force simp add: p)
  have "filter (\<lambda>(d, s). map_of (led @ [(d', s')]) d = None) bd
      = filter (\<lambda>(d, s). map_of led d = None) bd"
    by (rule filter_cong) (auto simp add: map_add_def dest: ne split: option.splits)
  then show ?case using Cons.IH[of led] Cons.IH[of "led @ [(d', s')]"] Cons.prems
    by (simp add: p)
qed


section \<open>One iteration of the outer loop\<close>

lemma process_repo_closed:
  "process_repo c rep (cum, dr, out) =
     (let nm = repo_name rep;
          entry = (case map_of cum nm of Some e \<Rightarrow> e | None \<Rightarrow> new_totals rep);
          led = (case map_of dr nm of Some l \<Rightarrow> l | None \<Rightarrow> []);
          added = added_days led (daily_breakdown rep)
      in (AList.update nm
            (entry\<lparr>total_clones := total_clones entry + sum_list (map (\<lambda>(d, s). count s) added),
                   total_unique := max (total_unique entry) (period_unique rep),
                   last_updated := Some (timestamp rep)\<rparr>) cum,
          AList.update nm (filter (\<lambda>(day, stats). day \<ge> c) (led @ added)) dr,
          out @ map (\<lambda>(d, s). Adding (count s) d nm) added))"
  by (simp add: process_repo_def process_days_closed Let_def update_conv' split: option.splits)

lemma process_repo_maps:
  "process_repo c rep (cum, dr, out) = (cum', dr', out') \<Longrightarrow>
   (map_of cum', map_of dr') = merge_report c rep (map_of cum, map_of dr)"
  by (auto simp add: process_repo_closed merge_report_def Let_def update_conv')


lemma map_of_filter_key:
  "map_of (filter (\<lambda>(k, v). P k) al) x = (if P x then map_of al x else None)"
  by (induction al) auto

lemma step_additions_on:
  assumes "process_repo c rep (cum, dr, []) = (cum', dr', out)"
  shows "additions_on r d out =
     (if repo_name rep = r \<and> ledger_at dr r d = None
      then (case map_of (daily_breakdown rep) d of None \<Rightarrow> [] | Some s \<Rightarrow> [Adding (count s) d r])
      else [])"
proof -
  define led where "led = (case map_of dr (repo_name rep) of Some l \<Rightarrow> l | None \<Rightarrow> [])"
  have out: "out = map (\<lambda>(d, s). Adding (count s) d (repo_name rep))
      (added_days led (daily_breakdown rep))"
    using assms by (simp add: process_repo_closed Let_def led_def)
  have "additions_on r d out = map (\<lambda>(d, s). Adding (count s) d (repo_name rep))
      (filter (\<lambda>(d', s). repo_name rep = r \<and> d' = d) (added_days led (daily_breakdown rep)))"
    by (simp add: out additions_on_def filter_map comp_def case_prod_unfold)
  also have "\<dots> = (if repo_name rep = r then map (\<lambda>(d, s). Adding (count s) d (repo_name rep))
      (filter (\<lambda>(d', s). d' = d) (added_days led (daily_breakdown rep))) else [])"
    by simp
  also have "\<dots> = (if repo_name rep = r \<and> map_of led d = None
      then (case map_of (daily_breakdown rep) d of None \<Rightarrow> [] | Some s \<Rightarrow> [Adding (count s) d r])
      else [])"
    by (simp add: added_days_filter split: option.splits)
  also have "(repo_name rep = r \<and> map_of led d = None) = (repo_name rep = r \<and> ledger_at dr r d = None)"
    by (auto simp add: led_def ledger_at_def split: option.splits)
  finally show ?thesis .
qed

lemma step_parts:
  assumes "process_repo c rep (cum, dr, out0) = (cum', dr', out)"
  defines "entry \<equiv> (case map_of cum (repo_name rep) of Some e \<Rightarrow> e | None \<Rightarrow> new_totals rep)"
    and "led \<equiv> (case map_of dr (repo_name rep) of Some l \<Rightarrow> l | None \<Rightarrow> [])"
  shows "map_of cum' = (map_of cum)(repo_name rep \<mapsto>
            entry\<lparr>total_clones := total_clones entry
                      + sum_list (map (\<lambda>(d, s). count s) (added_days led (daily_breakdown rep))),
                   total_unique := max (total_unique entry) (period_unique rep),
                   last_updated := Some (timestamp rep)\<rparr>)"
    and "map_of dr' = (map_of dr)(repo_name rep \<mapsto>
            filter (\<lambda>(day, stats). day \<ge> c) (led @ added_days led (daily_breakdown rep)))"
    and "out = out0 @ map (\<lambda>(d, s). Adding (count s) d (repo_name rep))
            (added_days led (daily_breakdown rep))"
  using assms(1) unfolding entry_def led_def
  by (auto simp add: process_repo_closed Let_def update_conv')

lemma step_ledger_at:
  assumes "process_repo c rep (cum, dr, out0) = (cum', dr', out)"
  shows "ledger_at dr' r d =
     (if repo_name rep = r
      then (if c \<le> d then (case ledger_at dr r d of Some v \<Rightarrow> Some v
                                | None \<Rightarrow> map_of (daily_breakdown rep) d)
            else None)
      else ledger_at dr r d)"
proof (cases "repo_name rep = r")
  case False
  then show ?thesis by (simp add: ledger_at_def step_parts(2)[OF assms])
next
  case True
  define led where "led = (case map_of dr (repo_name rep) of Some l \<Rightarrow> l | None \<Rightarrow> [])"
  have "ledger_at dr' r d
      = map_of (filter (\<lambda>(day, stats). day \<ge> c) (led @ added_days led (daily_breakdown rep))) d"
    using True by (simp add: ledger_at_def step_parts(2)[OF assms] led_def)
  also have "\<dots> = (if c \<le> d then map_of (led @ added_days led (daily_breakdown rep)) d else None)"
    by (rule map_of_filter_key)
  also have "\<dots> = (if c \<le> d then (map_of (daily_breakdown rep) ++ map_of led) d else None)"
    by (simp only: map_of_added_days)
  also have "map_of led = ledger_at dr r"
    using True by (auto simp add: led_def ledger_at_def fun_eq_iff split: option.splits)
  finally show ?thesis using True by (simp add: map_add_def split: option.splits)
qed

lemma step_additions:
  assumes "process_repo c rep (cum, dr, []) = (cum', dr', out)"
  shows "additions r out = (if repo_name rep = r then out else [])"
  using assms by (auto simp add: process_repo_closed Let_def additions_def case_prod_unfold filter_map comp_def)

lemma add_count_added:
  "map add_count (map (\<lambda>(d, s). Adding (count s) d nm) xs) = map (\<lambda>(d, s). count s) xs"
  by (induction xs) auto

lemma step_total_of:
  assumes "process_repo c rep (cum, dr, []) = (cum', dr', out)"
  shows "total_of cum' r = total_of cum r + sum_list (map add_count (additions r out))"
proof (cases "repo_name rep = r")
  case True
  have "additions r out = out" using True by (simp add: step_additions[OF assms])
  moreover have "map add_count out = map (\<lambda>(d, s). count s)
      (added_days (case map_of dr (repo_name rep) of Some l \<Rightarrow> l | None \<Rightarrow> []) (daily_breakdown rep))"
    by (simp only: step_parts(3)[OF assms] append_Nil add_count_added)
  ultimately show ?thesis using True
    by (simp add: total_of_def step_parts(1)[OF assms] new_totals_def split: option.splits)
next
  case False
  then show ?thesis
    by (simp add: step_additions[OF assms] total_of_def step_parts(1)[OF assms])
qed

lemma step_frame:
  assumes "process_repo c rep (cum, dr, out0) = (cum', dr', out)" and "repo_name rep \<noteq> r"
  shows "map_of cum' r = map_of cum r" and "map_of dr' r = map_of dr r"
  using assms(2) by (simp_all add: step_parts(1,2)[OF assms(1)])

lemma step_out:
  "process_repo c rep (cum, dr, out0) =
     (case process_repo c rep (cum, dr, []) of (cum', dr', out) \<Rightarrow> (cum', dr', out0 @ out))"
  by (simp add: process_repo_closed Let_def)

section \<open>The outer loop and sequences of runs\<close>

lemma process_all_Nil: "process_all [] st = st"
  and process_all_Cons:
    "process_all ((c, rep) # steps) st = process_all steps (process_repo c rep st)"
  by (simp_all add: process_all_def)

lemma readings_snd: "map snd (readings cl batch) = batch"
  by (simp add: readings_def)

lemma readings_names: "map (\<lambda>p. repo_name (snd p)) (readings cl batch) = map repo_name batch"
proof -
  have "map (\<lambda>p. repo_name (snd p)) (readings cl batch)
      = map repo_name (map snd (readings cl batch))"
    by (simp add: comp_def)
  then show ?thesis by (simp only: readings_snd)
qed

lemma readings_set_snd: "snd ` set (readings cl batch) = set batch"
proof -
  have "snd ` set (readings cl batch) = set (map snd (readings cl batch))" by simp
  then show ?thesis by (simp only: readings_snd)
qed

lemma readings_mem:
  "i < length batch \<Longrightarrow> (cl i, batch ! i) \<in> set (readings cl batch)"
  by (force simp add: readings_def set_zip)

lemma readings_set:
  "(c, rep) \<in> set (readings cl batch) \<Longrightarrow> \<exists>i<length batch. c = cl i \<and> rep = batch ! i"
  by (auto simp add: readings_def set_zip)

lemma readings_const:
  assumes "\<forall>i<length batch. cl i = c"
  shows "readings cl batch = map (Pair c) batch"
  using assms by (intro nth_equalityI) (simp_all add: readings_def)

lemma process_all_const: "process_all (map (Pair c) batch) st = fold (process_repo c) batch st"
  by (induction batch arbitrary: st) (simp_all add: process_all_Nil process_all_Cons)

lemma batch_out:
  "process_all steps (cum, dr, out0) =
     (case process_all steps (cum, dr, []) of (cum', dr', out) \<Rightarrow> (cum', dr', out0 @ out))"
proof (induction steps arbitrary: cum dr out0)
  case Nil
  show ?case by (simp add: process_all_Nil)
next
  case (Cons p steps)
  obtain c rep where p: "p = (c, rep)" by (cases p)
  obtain cum1 dr1 out1 where s1: "process_repo c rep (cum, dr, []) = (cum1, dr1, out1)"
    by (cases "process_repo c rep (cum, dr, [])") auto
  have s0: "process_repo c rep (cum, dr, out0) = (cum1, dr1, out0 @ out1)"
    using s1 by (simp add: step_out[of c rep cum dr out0])
  show ?case
    by (simp add: p process_all_Cons s0 s1 Cons.IH[of cum1 dr1 "out0 @ out1"]
        Cons.IH[of cum1 dr1 out1] split: prod.splits)
qed

lemma additions_append: "additions r (xs @ ys) = additions r xs @ additions r ys"
  and additions_on_append: "additions_on r d (xs @ ys) = additions_on r d xs @ additions_on r d ys"
  by (simp_all add: additions_def additions_on_def)

lemma batch_step:
  assumes "process_all ((c, rep) # steps) (cum, dr, []) = (cum', dr', out)"
  obtains cum1 dr1 out1 out2 where
    "process_repo c rep (cum, dr, []) = (cum1, dr1, out1)"
    "process_all steps (cum1, dr1, []) = (cum', dr', out2)"
    "out = out1 @ out2"
proof -
  obtain cum1 dr1 out1 where s1: "process_repo c rep (cum, dr, []) = (cum1, dr1, out1)"
    by (cases "process_repo c rep (cum, dr, [])") auto
  obtain cum2 dr2 out2 where s2: "process_all steps (cum1, dr1, []) = (cum2, dr2, out2)"
    by (cases "process_all steps (cum1, dr1, [])") auto
  have "process_all ((c, rep) # steps) (cum, dr, []) = (cum2, dr2, out1 @ out2)"
    by (simp add: process_all_Cons s1 batch_out[of steps cum1 dr1 out1] s2)
  with assms have "cum2 = cum'" "dr2 = dr'" "out = out1 @ out2" by simp_all
  with s1 s2 that show thesis by blast
qed

lemma batch_frame:
  assumes "process_all steps (cum, dr, []) = (cum', dr', out)"
    and "r \<notin> repo_name ` snd ` set steps"
  shows "map_of cum' r = map_of cum r \<and> map_of dr' r = map_of dr r \<and> additions r out = []"
  using assms
proof (induction steps arbitrary: cum dr out)
  case Nil
  then show ?case by (simp add: additions_def process_all_Nil)
next
  case (Cons p steps)
  obtain c rep where p: "p = (c, rep)" by (cases p)
  from Cons.prems(1)[unfolded p] obtain cum1 dr1 out1 out2 where
    s1: "process_repo c rep (cum, dr, []) = (cum1, dr1, out1)" and
    s2: "process_all steps (cum1, dr1, []) = (cum', dr', out2)" and
    o: "out = out1 @ out2" by (rule batch_step)
  have ne: "repo_name rep \<noteq> r" and r: "r \<notin> repo_name ` snd ` set steps"
    using Cons.prems(2) by (auto simp add: p)
  show ?case
    using Cons.IH[OF s2 r] step_frame[OF s1 ne] step_additions[OF s1, of r] ne
    by (simp add: o additions_append)
qed

lemma batch_total_of:
  assumes "process_all steps (cum, dr, []) = (cum', dr', out)"
  shows "total_of cum' r = total_of cum r + sum_list (map add_count (additions r out))"
  using assms
proof (induction steps arbitrary: cum dr out)
  case Nil
  then show ?case by (simp add: additions_def process_all_Nil)
next
  case (Cons p steps)
  obtain c rep where p: "p = (c, rep)" by (cases p)
  from Cons.prems(1)[unfolded p] obtain cum1 dr1 out1 out2 where
    s1: "process_repo c rep (cum, dr, []) = (cum1, dr1, out1)" and
    s2: "process_all steps (cum1, dr1, []) = (cum', dr', out2)" and
    o: "out = out1 @ out2" by (rule batch_step)
  show ?case
    using Cons.IH[OF s2] step_total_of[OF s1, of r]
    by (simp add: o additions_append)
qed

lemma batch_day:
  fixes r :: string
  assumes "process_all steps (cum, dr, []) = (cum', dr', out)"
    and "\<forall>(c, rep) \<in> set steps. c \<le> d"
  defines "rp \<equiv> concat (map daily_breakdown
      (filter (\<lambda>repo. repo_name repo = r) (map snd steps)))"
  shows "additions_on r d out =
           (if ledger_at dr r d \<noteq> None then []
            else case map_of rp d of None \<Rightarrow> [] | Some s \<Rightarrow> [Adding (count s) d r])
       \<and> ledger_at dr' r d =
           (case ledger_at dr r d of Some v \<Rightarrow> Some v | None \<Rightarrow> map_of rp d)"
  using assms(1,2) unfolding rp_def
proof (induction steps arbitrary: cum dr out)
  case Nil
  then show ?case by (simp add: additions_on_def process_all_Nil split: option.splits)
next
  case (Cons p steps)
  obtain c rep where p: "p = (c, rep)" by (cases p)
  from Cons.prems(1)[unfolded p] obtain cum1 dr1 out1 out2 where
    s1: "process_repo c rep (cum, dr, []) = (cum1, dr1, out1)" and
    s2: "process_all steps (cum1, dr1, []) = (cum', dr', out2)" and
    o: "out = out1 @ out2" by (rule batch_step)
  have c: "c \<le> d" and rest: "\<forall>(c, rep) \<in> set steps. c \<le> d"
    using Cons.prems(2) by (simp_all add: p)
  note ih = Cons.IH[OF s2 rest]
  note a = step_additions_on[OF s1, of r d]
  note l = step_ledger_at[OF s1, of r d]
  show ?case
    using ih a l c
    by (auto simp add: p o additions_on_append map_add_def split: option.splits)
qed

lemma run_cycle_fold:
  "run_cycle (cl, batch) (cum, dr, out0) =
     (case process_all (readings cl batch) (cum, dr, []) of
        (cum', dr', out) \<Rightarrow> (cum', dr', out0 @ out))"
  by (simp add: calculate_cumulative_totals_def)

lemma cycles_out:
  "run_cycles cycles (cum, dr, out0) =
     (case run_cycles cycles (cum, dr, []) of (cum', dr', out) \<Rightarrow> (cum', dr', out0 @ out))"
  unfolding run_cycles_def
proof (induction cycles arbitrary: cum dr out0)
  case Nil
  show ?case by simp
next
  case (Cons cy cycles)
  obtain cl batch where cy: "cy = (cl, batch)" by (cases cy)
  obtain cum1 dr1 out1 where
    s1: "process_all (readings cl batch) (cum, dr, []) = (cum1, dr1, out1)"
    by (cases "process_all (readings cl batch) (cum, dr, [])") auto
  show ?case
    by (simp add: cy run_cycle_fold s1 Cons.IH[of cum1 dr1 "out0 @ out1"] Cons.IH[of cum1 dr1 out1]
        del: run_cycle.simps split: prod.splits)
qed

lemma cycles_step:
  assumes "run_cycles ((cl, batch) # cycles) (cum, dr, []) = (cum', dr', out)"
  obtains cum1 dr1 out1 out2 where
    "process_all (readings cl batch) (cum, dr, []) = (cum1, dr1, out1)"
    "run_cycles cycles (cum1, dr1, []) = (cum', dr', out2)"
    "out = out1 @ out2"
proof -
  obtain cum1 dr1 out1 where
    s1: "process_all (readings cl batch) (cum, dr, []) = (cum1, dr1, out1)"
    by (cases "process_all (readings cl batch) (cum, dr, [])") auto
  obtain cum2 dr2 out2 where s2: "run_cycles cycles (cum1, dr1, []) = (cum2, dr2, out2)"
    by (cases "run_cycles cycles (cum1, dr1, [])") auto
  have "run_cycles ((cl, batch) # cycles) (cum, dr, []) = run_cycles cycles (cum1, dr1, out1)"
    by (simp add: run_cycles_def run_cycle_fold s1 del: run_cycle.simps)
  also have "\<dots> = (cum2, dr2, out1 @ out2)"
    by (simp add: cycles_out[of cycles cum1 dr1 out1] s2)
  finally have "cum2 = cum'" "dr2 = dr'" "out = out1 @ out2" using assms by simp_all
  with s1 s2 that show thesis by blast
qed

lemma cycles_total_of:
  assumes "run_cycles cycles (cum, dr, []) = (cum', dr', out)"
  shows "total_of cum' r = total_of cum r + sum_list (map add_count (additions r out))"
  using assms
proof (induction cycles arbitrary: cum dr out)
  case Nil
  then show ?case by (simp add: run_cycles_def additions_def)
next
  case (Cons cy cycles)
  obtain cl batch where cy: "cy = (cl, batch)" by (cases cy)
  from Cons.prems[unfolded cy] obtain cum1 dr1 out1 out2 where
    s1: "process_all (readings cl batch) (cum, dr, []) = (cum1, dr1, out1)" and
    s2: "run_cycles cycles (cum1, dr1, []) = (cum', dr', out2)" and
    o: "out = out1 @ out2" by (rule cycles_step)
  show ?case using Cons.IH[OF s2] batch_total_of[OF s1, of r] by (simp add: o additions_append)
qed

lemma cycles_day:
  assumes "run_cycles cycles (cum, dr, []) = (cum', dr', out)"
    and "\<forall>(cutoff_at, clone_data) \<in> set cycles. \<forall>i<length clone_data. cutoff_at i \<le> d"
  shows "additions_on r d out =
           (if ledger_at dr r d \<noteq> None then []
            else case map_of (reported r cycles) d of None \<Rightarrow> []
                 | Some s \<Rightarrow> [Adding (count s) d r])
       \<and> ledger_at dr' r d =
           (case ledger_at dr r d of Some v \<Rightarrow> Some v | None \<Rightarrow> map_of (reported r cycles) d)"
  using assms
proof (induction cycles arbitrary: cum dr out)
  case Nil
  then show ?case by (simp add: run_cycles_def additions_on_def reported_def split: option.splits)
next
  case (Cons cy cycles)
  obtain cl batch where cy: "cy = (cl, batch)" by (cases cy)
  from Cons.prems(1)[unfolded cy] obtain cum1 dr1 out1 out2 where
    s1: "process_all (readings cl batch) (cum, dr, []) = (cum1, dr1, out1)" and
    s2: "run_cycles cycles (cum1, dr1, []) = (cum', dr', out2)" and
    o: "out = out1 @ out2" by (rule cycles_step)
  have here: "\<forall>i<length batch. cl i \<le> d"
    and rest: "\<forall>(cutoff_at, clone_data) \<in> set cycles. \<forall>i<length clone_data. cutoff_at i \<le> d"
    using Cons.prems(2) by (simp_all add: cy)
  have c: "\<forall>(c, rep) \<in> set (readings cl batch). c \<le> d"
    using here readings_set[of _ _ cl batch] by blast
  note ih = Cons.IH[OF s2 rest]
  note b = batch_day[OF s1 c, of r, unfolded readings_snd]
  have rp: "reported r (cy # cycles)
      = concat (map daily_breakdown (filter (\<lambda>repo. repo_name repo = r) batch)) @ reported r cycles"
    by (simp add: reported_def cy)
  show ?case
    using ih b
    by (auto simp add: o rp additions_on_append map_add_def split: option.splits)
qed

section \<open>Claims on the reconciliation\<close>

text \<open>
  C1 (no double-count). Take any sequence of runs, from any stored state, in which the
  day \<open>d\<close> stays inside the retention window (every cutoff that any iteration of any run
  computes is at most \<open>d\<close>). Then the additions printed for repository \<open>r\<close> and day \<open>d\<close>
  over the whole sequence are: none if the ledger of \<open>r\<close> already holds \<open>d\<close> at the start
  (it was counted before); none if no report for \<open>r\<close> contains \<open>d\<close>; and otherwise exactly
  one, with the count of the first report that contains \<open>d\<close>, however many later reports
  contain it. And \<^verbatim>\<open>total_clones\<close> of \<open>r\<close> grows by exactly the sum of the additions printed
  for \<open>r\<close>.
\<close>

theorem no_double_count:
  assumes "run_cycles cycles (cum, dr, []) = (cum', dr', out)"
    and "\<forall>(cutoff_at, clone_data) \<in> set cycles. \<forall>i<length clone_data. cutoff_at i \<le> d"
  shows "additions_on r d out =
           (if ledger_at dr r d \<noteq> None then []
            else case map_of (reported r cycles) d of None \<Rightarrow> []
                 | Some s \<Rightarrow> [Adding (count s) d r])
       \<and> total_of cum' r = total_of cum r + sum_list (map add_count (additions r out))"
  using cycles_day[OF assms, of r] cycles_total_of[OF assms(1), of r] by simp

theorem no_double_count_witness:
  "map snd scenario_cycles = [[scenario_report_1], [scenario_report_2]]
   \<and> fst (scenario_cycles ! 0) 0 = ''2023-12-04'' \<and> fst (scenario_cycles ! 1) 0 = ''2023-12-05''
   \<and> ''2023-12-04'' \<le> ''2024-01-02'' \<and> ''2023-12-05'' \<le> ''2024-01-02''
   \<and> additions_on ''X'' ''2024-01-02'' (snd (snd (run_cycles scenario_cycles ([], [], []))))
       = [Adding 5 ''2024-01-02'' ''X'']
   \<and> total_of (fst (run_cycles scenario_cycles ([], [], []))) ''X'' = 9"
proof -
  define res where "res = run_cycles scenario_cycles ([], [], [])"
  have run: "run_cycles scenario_cycles ([], [], []) = (fst res, fst (snd res), snd (snd res))"
    by (simp add: res_def)
  have h: "\<forall>(cutoff_at, clone_data) \<in> set scenario_cycles.
      \<forall>i<length clone_data. cutoff_at i \<le> ''2024-01-02''"
    by (simp add: scenario_cycles_def)
  have rp: "map_of (reported ''X'' scenario_cycles) ''2024-01-02'' = Some \<lparr>count = 5, uniques = 4\<rparr>"
    by (simp add: reported_def scenario_cycles_def scenario_report_1_def scenario_report_2_def)
  have t: "total_of (fst res) ''X'' = 9"
    unfolding res_def by code_simp
  have c: "map snd scenario_cycles = [[scenario_report_1], [scenario_report_2]]
      \<and> fst (scenario_cycles ! 0) 0 = ''2023-12-04'' \<and> fst (scenario_cycles ! 1) 0 = ''2023-12-05''"
    by (simp add: scenario_cycles_def)
  from no_double_count[OF run h, of "''X''"] c rp t show ?thesis
    by (simp add: res_def ledger_at_def)
qed

lemma additions_on_additions: "additions_on r d out = filter (\<lambda>m. add_day m = d) (additions r out)"
  by (simp add: additions_on_def additions_def conj_commute)

lemma batch_present:
  assumes "process_all steps (cum, dr, []) = (cum', dr', out)"
    and "ledger_at dr r d = Some v"
    and "distinct (map (\<lambda>p. repo_name (snd p)) steps)"
  shows "additions_on r d out = []
       \<and> ledger_at dr' r d
           = (if (\<exists>c rep. (c, rep) \<in> set steps \<and> repo_name rep = r \<and> d < c) then None
              else Some v)"
  using assms
proof (induction steps arbitrary: cum dr out)
  case Nil
  then show ?case by (simp add: additions_on_def process_all_Nil)
next
  case (Cons p steps)
  obtain c rep where p: "p = (c, rep)" by (cases p)
  from Cons.prems(1)[unfolded p] obtain cum1 dr1 out1 out2 where
    s1: "process_repo c rep (cum, dr, []) = (cum1, dr1, out1)" and
    s2: "process_all steps (cum1, dr1, []) = (cum', dr', out2)" and
    o: "out = out1 @ out2" by (rule batch_step)
  have o1: "additions_on r d out1 = []"
    using step_additions_on[OF s1, of r d] Cons.prems(2) by simp
  have dis: "distinct (map (\<lambda>p. repo_name (snd p)) steps)" using Cons.prems(3) by simp
  show ?case
  proof (cases "repo_name rep = r")
    case True
    then have nin: "r \<notin> repo_name ` snd ` set steps"
      using Cons.prems(3) by (auto simp add: p image_iff)
    have l1: "ledger_at dr1 r d = (if c \<le> d then Some v else None)"
      using step_ledger_at[OF s1, of r d] True Cons.prems(2) by simp
    have l2: "ledger_at dr' r d = ledger_at dr1 r d"
      using batch_frame[OF s2 nin] by (simp add: ledger_at_def)
    have o2: "additions_on r d out2 = []"
      using batch_frame[OF s2 nin] by (simp add: additions_on_additions)
    have none: "\<not> (\<exists>c' rep'. (c', rep') \<in> set steps \<and> repo_name rep' = r \<and> d < c')"
      using nin by force
    have ex: "(\<exists>c' rep'. (c', rep') \<in> set (p # steps) \<and> repo_name rep' = r \<and> d < c')
        = (d < c)"
      using none True by (auto simp add: p)
    have "ledger_at dr' r d = (if d < c then None else Some v)"
      unfolding l2 l1 by auto
    then show ?thesis
      unfolding o additions_on_append o1 o2 ex by simp
  next
    case False
    have l1: "ledger_at dr1 r d = Some v"
      using step_ledger_at[OF s1, of r d] Cons.prems(2) False by simp
    have ex: "(\<exists>c' rep'. (c', rep') \<in> set (p # steps) \<and> repo_name rep' = r \<and> d < c')
        = (\<exists>c' rep'. (c', rep') \<in> set steps \<and> repo_name rep' = r \<and> d < c')"
      using False by (auto simp add: p)
    from Cons.IH[OF s2 l1 dis] show ?thesis
      unfolding o additions_on_append o1 ex by simp
  qed
qed

text \<open>
  C2 (first-seen wins). Let the ledger of repository \<open>r\<close> hold the snapshot \<open>v\<close> for day
  \<open>d\<close>. Then, whatever a report carries for \<open>d\<close>, processing the report prints no
  addition for \<open>r\<close> and \<open>d\<close>, the growth of \<^verbatim>\<open>total_clones\<close> of \<open>r\<close> is the sum of the
  additions printed for \<open>r\<close> (so nothing of the later value enters it), and the ledger
  still holds \<open>v\<close> for \<open>d\<close> unless the day is pruned (the report is for \<open>r\<close> and \<open>d\<close> is
  before the cutoff of its iteration): no other snapshot is ever stored for \<open>d\<close>. The same
  holds for a whole run whose batch has one report per repository.
\<close>

theorem first_seen_wins:
  assumes "ledger_at (daily_records h) r d = Some v"
  shows "(\<forall>c rep cum1 dr1 out1.
            process_repo c rep (cumulative_totals h, daily_records h, []) = (cum1, dr1, out1) \<longrightarrow>
            additions_on r d out1 = []
            \<and> total_of cum1 r
                = total_of (cumulative_totals h) r + sum_list (map add_count (additions r out1))
            \<and> ledger_at dr1 r d = (if repo_name rep = r \<and> d < c then None else Some v))
       \<and> (\<forall>cutoff_at batch cum' dr' out.
            distinct (map repo_name batch)
            \<and> calculate_cumulative_totals cutoff_at batch h = (cum', dr', out) \<longrightarrow>
            additions_on r d out = []
            \<and> total_of cum' r
                = total_of (cumulative_totals h) r + sum_list (map add_count (additions r out))
            \<and> ledger_at dr' r d
                = (if (\<exists>i<length batch. repo_name (batch ! i) = r \<and> d < cutoff_at i) then None
                   else Some v))"
proof (intro conjI allI impI)
  fix c rep cum1 dr1 out1
  assume s1: "process_repo c rep (cumulative_totals h, daily_records h, []) = (cum1, dr1, out1)"
  show "additions_on r d out1 = []"
    using step_additions_on[OF s1, of r d] assms by simp
  show "total_of cum1 r
      = total_of (cumulative_totals h) r + sum_list (map add_count (additions r out1))"
    by (rule step_total_of[OF s1])
  show "ledger_at dr1 r d = (if repo_name rep = r \<and> d < c then None else Some v)"
    using step_ledger_at[OF s1, of r d] assms by auto
next
  fix cl batch cum' dr' out
  assume a: "distinct (map repo_name batch)
      \<and> calculate_cumulative_totals cl batch h = (cum', dr', out)"
  then have run: "process_all (readings cl batch) (cumulative_totals h, daily_records h, [])
      = (cum', dr', out)"
    by (simp add: calculate_cumulative_totals_def)
  from a have dis: "distinct (map (\<lambda>p. repo_name (snd p)) (readings cl batch))"
    by (simp only: readings_names)
  have ex: "(\<exists>c rep. (c, rep) \<in> set (readings cl batch) \<and> repo_name rep = r \<and> d < c)
      = (\<exists>i<length batch. repo_name (batch ! i) = r \<and> d < cl i)"
    using readings_set[of _ _ cl batch] readings_mem[of _ batch cl] by blast
  show "additions_on r d out = []"
    and "ledger_at dr' r d
      = (if (\<exists>i<length batch. repo_name (batch ! i) = r \<and> d < cl i) then None else Some v)"
    using batch_present[OF run assms dis] unfolding ex by simp_all
  show "total_of cum' r
      = total_of (cumulative_totals h) r + sum_list (map add_count (additions r out))"
    by (rule batch_total_of[OF run])
qed

theorem first_seen_wins_witness:
  "map_of (daily_breakdown scenario_report_2) ''2024-01-02'' = Some \<lparr>count = 99, uniques = 99\<rparr>
   \<and> ledger_at (daily_records scenario_state_1) ''X'' ''2024-01-02'' = Some \<lparr>count = 5, uniques = 4\<rparr>
   \<and> additions_on ''X'' ''2024-01-02''
        (snd (snd (calculate_cumulative_totals (\<lambda>i. ''2023-12-05'') [scenario_report_2]
           scenario_state_1))) = []
   \<and> ledger_at (fst (snd (calculate_cumulative_totals (\<lambda>i. ''2023-12-05'') [scenario_report_2]
           scenario_state_1)))
        ''X'' ''2024-01-02'' = Some \<lparr>count = 5, uniques = 4\<rparr>
   \<and> total_of (fst (calculate_cumulative_totals (\<lambda>i. ''2023-12-05'') [scenario_report_2]
           scenario_state_1)) ''X'' = 9"
proof -
  define res where "res = calculate_cumulative_totals (\<lambda>i. ''2023-12-05'') [scenario_report_2]
      scenario_state_1"
  have l: "ledger_at (daily_records scenario_state_1) ''X'' ''2024-01-02'' = Some \<lparr>count = 5, uniques = 4\<rparr>"
    by (simp add: ledger_at_def scenario_state_1_def)
  have run: "distinct (map repo_name [scenario_report_2])
      \<and> calculate_cumulative_totals (\<lambda>i. ''2023-12-05'') [scenario_report_2] scenario_state_1
      = (fst res, fst (snd res), snd (snd res))"
    by (simp add: res_def)
  have b: "map_of (daily_breakdown scenario_report_2) ''2024-01-02'' = Some \<lparr>count = 99, uniques = 99\<rparr>"
    by (simp add: scenario_report_2_def)
  have t: "total_of (fst res) ''X'' = 9" unfolding res_def by code_simp
  have n: "\<not> ''2024-01-02'' < ''2023-12-05''" by simp
  from first_seen_wins[OF l, THEN conjunct2, rule_format, OF run] b l t n show ?thesis
    by (simp add: res_def)
qed

text \<open>
  C3 (concrete scenario). From the empty state, with both runs' cutoffs at most
  2024-01-01 (so that all three days are within the retention window): the first run,
  reporting \<open>X\<close> with 2024-01-01: (3, 2), 2024-01-02: (5, 4) and 5 period uniques, stores
  \<^verbatim>\<open>total_clones\<close> 8, \<^verbatim>\<open>total_unique\<close> 5 and a ledger with both days; the second run,
  reporting 2024-01-02: (99, 99), 2024-01-03: (1, 1) and 6 period uniques, stores
  \<^verbatim>\<open>total_clones\<close> 9 and \<^verbatim>\<open>total_unique\<close> 6, and the ledger keeps (5, 4) for 2024-01-02.
\<close>

theorem concrete_scenario:
  fixes cl1 cl2 :: "nat \<Rightarrow> string" and ts1 ts2 day1 day2 :: string and pc1 pc2 :: int
  assumes "cl1 0 \<le> ''2024-01-01''" and "cl2 0 \<le> ''2024-01-01''"
  defines "r1 \<equiv> \<lparr>timestamp = ts1, date = day1, repo_name = ''X'',
      period_clones = pc1, period_unique = 5,
      daily_breakdown = [(''2024-01-01'', \<lparr>count = 3, uniques = 2\<rparr>),
                         (''2024-01-02'', \<lparr>count = 5, uniques = 4\<rparr>)]\<rparr>"
    and "r2 \<equiv> \<lparr>timestamp = ts2, date = day2, repo_name = ''X'',
      period_clones = pc2, period_unique = 6,
      daily_breakdown = [(''2024-01-02'', \<lparr>count = 99, uniques = 99\<rparr>),
                         (''2024-01-03'', \<lparr>count = 1, uniques = 1\<rparr>)]\<rparr>"
  defines "s1 \<equiv> calculate_cumulative_totals cl1 [r1]
      \<lparr>cumulative_totals = [], daily_records = [], last_run = None\<rparr>"
  defines "s2 \<equiv> calculate_cumulative_totals cl2 [r2]
      \<lparr>cumulative_totals = fst s1, daily_records = fst (snd s1), last_run = Some ts1\<rparr>"
  shows "fst s1 = [(''X'', \<lparr>total_clones = 8, total_unique = 5, first_tracked = ts1,
                            last_updated = Some ts1\<rparr>)]
       \<and> fst (snd s1) = [(''X'', [(''2024-01-01'', \<lparr>count = 3, uniques = 2\<rparr>),
                                  (''2024-01-02'', \<lparr>count = 5, uniques = 4\<rparr>)])]
       \<and> fst s2 = [(''X'', \<lparr>total_clones = 9, total_unique = 6, first_tracked = ts1,
                            last_updated = Some ts2\<rparr>)]
       \<and> fst (snd s2) = [(''X'', [(''2024-01-01'', \<lparr>count = 3, uniques = 2\<rparr>),
                                  (''2024-01-02'', \<lparr>count = 5, uniques = 4\<rparr>),
                                  (''2024-01-03'', \<lparr>count = 1, uniques = 1\<rparr>)])]"
proof -
  have b: "''2024-01-01'' \<le> ''2024-01-02''" "''2024-01-01'' \<le> ''2024-01-03''"
    by simp_all
  have a: "cl1 0 \<le> ''2024-01-02''" "cl2 0 \<le> ''2024-01-02''" "cl2 0 \<le> ''2024-01-03''"
    by (rule order_trans[OF assms(1) b(1)], rule order_trans[OF assms(2) b(1)],
        rule order_trans[OF assms(2) b(2)])
  have s1: "s1 = ([(''X'', \<lparr>total_clones = 8, total_unique = 5, first_tracked = ts1,
                            last_updated = Some ts1\<rparr>)],
       [(''X'', [(''2024-01-01'', \<lparr>count = 3, uniques = 2\<rparr>),
                                  (''2024-01-02'', \<lparr>count = 5, uniques = 4\<rparr>)])],
       [Adding 3 ''2024-01-01'' ''X'', Adding 5 ''2024-01-02'' ''X''])"
    unfolding s1_def r1_def using assms(1) a
    by (simp add: calculate_cumulative_totals_def readings_def process_all_Nil process_all_Cons
        process_repo_closed new_totals_def Let_def)
  show ?thesis
    unfolding s2_def r2_def unfolding s1 using assms(2) a
    by (simp add: calculate_cumulative_totals_def readings_def process_all_Nil process_all_Cons
        process_repo_closed new_totals_def Let_def)
qed

theorem concrete_scenario_witness:
  "''2023-12-04'' \<le> ''2024-01-01'' \<and> ''2023-12-05'' \<le> ''2024-01-01''
   \<and> fst (calculate_cumulative_totals (\<lambda>i. ''2023-12-04'') [scenario_report_1]
           \<lparr>cumulative_totals = [], daily_records = [], last_run = None\<rparr>)
       = cumulative_totals scenario_state_1
   \<and> fst (snd (calculate_cumulative_totals (\<lambda>i. ''2023-12-04'') [scenario_report_1]
           \<lparr>cumulative_totals = [], daily_records = [], last_run = None\<rparr>))
       = daily_records scenario_state_1
   \<and> total_of (fst (calculate_cumulative_totals (\<lambda>i. ''2023-12-05'') [scenario_report_2]
           scenario_state_1)) ''X'' = 9
   \<and> unique_of (fst (calculate_cumulative_totals (\<lambda>i. ''2023-12-05'') [scenario_report_2]
           scenario_state_1)) ''X'' = 6"
proof -
  have h1: "(\<lambda>i::nat. ''2023-12-04'') 0 \<le> ''2024-01-01''"
    and h2: "(\<lambda>i::nat. ''2023-12-05'') 0 \<le> ''2024-01-01''"
    by simp_all
  note t = concrete_scenario[OF h1 h2, where ?ts1.0 = "''2024-01-03 06:00:00''"
      and ?day1.0 = "''2024-01-03''" and ?pc1.0 = 8 and ?ts2.0 = "''2024-01-04 06:00:00''"
      and ?day2.0 = "''2024-01-04''" and ?pc2.0 = 100]
  note t1 = t[THEN conjunct1] and t2 = t[THEN conjunct2, THEN conjunct1]
  note t3 = t[THEN conjunct2, THEN conjunct2, THEN conjunct1, unfolded t1 t2]
  have h: "''2023-12-04'' \<le> ''2024-01-01''" "''2023-12-05'' \<le> ''2024-01-01''" by simp_all
  show ?thesis
    using h t1 t2 t3
    by (simp add: scenario_report_1_def scenario_report_2_def scenario_state_1_def
        total_of_def unique_of_def)
qed

lemma added_days_subset: "set (added_days led bd) \<subseteq> set bd"
proof (induction bd arbitrary: led)
  case Nil
  show ?case by simp
next
  case (Cons p bd)
  obtain d s where p: "p = (d, s)" by (cases p)
  show ?case using Cons[of led] Cons[of "led @ [(d, s)]"] by (auto simp add: p)
qed

lemma step_out_nonneg:
  assumes "process_repo c rep (cum, dr, []) = (cum', dr', out)"
    and "\<forall>(d, s) \<in> set (daily_breakdown rep). 0 \<le> count s"
  shows "\<forall>m \<in> set out. 0 \<le> add_count m"
  using assms(2) added_days_subset
  by (fastforce simp add: step_parts(3)[OF assms(1)])

lemma batch_out_nonneg:
  assumes "process_all steps (cum, dr, []) = (cum', dr', out)"
    and "\<forall>(c, rep) \<in> set steps. \<forall>(d, s) \<in> set (daily_breakdown rep). 0 \<le> count s"
  shows "\<forall>m \<in> set out. 0 \<le> add_count m"
  using assms
proof (induction steps arbitrary: cum dr out)
  case Nil
  then show ?case by (simp add: process_all_Nil)
next
  case (Cons p steps)
  obtain c rep where p: "p = (c, rep)" by (cases p)
  from Cons.prems(1)[unfolded p] obtain cum1 dr1 out1 out2 where
    s1: "process_repo c rep (cum, dr, []) = (cum1, dr1, out1)" and
    s2: "process_all steps (cum1, dr1, []) = (cum', dr', out2)" and
    o: "out = out1 @ out2" by (rule batch_step)
  have a: "\<forall>(d, s) \<in> set (daily_breakdown rep). 0 \<le> count s"
    and b: "\<forall>(c, rep) \<in> set steps. \<forall>(d, s) \<in> set (daily_breakdown rep). 0 \<le> count s"
    using Cons.prems(2) by (simp_all add: p)
  show ?case using step_out_nonneg[OF s1 a] Cons.IH[OF s2 b] by (auto simp add: o)
qed

lemma step_unique_of:
  assumes "process_repo c rep (cum, dr, out0) = (cum', dr', out)"
  shows "unique_of cum' r =
     (if repo_name rep = r then max (unique_of cum r) (period_unique rep) else unique_of cum r)"
  by (simp add: unique_of_def step_parts(1)[OF assms] new_totals_def split: option.splits)

lemma step_present:
  assumes "process_repo c rep (cum, dr, out0) = (cum', dr', out)" and "map_of cum r \<noteq> None"
  shows "map_of cum' r \<noteq> None"
  using assms(2) by (simp add: step_parts(1)[OF assms(1)])

lemma batch_unique_mono:
  assumes "process_all steps (cum, dr, []) = (cum', dr', out)"
  shows "unique_of cum r \<le> unique_of cum' r \<and> (map_of cum r \<noteq> None \<longrightarrow> map_of cum' r \<noteq> None)"
  using assms
proof (induction steps arbitrary: cum dr out)
  case Nil
  then show ?case by (simp add: process_all_Nil)
next
  case (Cons p steps)
  obtain c rep where p: "p = (c, rep)" by (cases p)
  from Cons.prems(1)[unfolded p] obtain cum1 dr1 out1 out2 where
    s1: "process_repo c rep (cum, dr, []) = (cum1, dr1, out1)" and
    s2: "process_all steps (cum1, dr1, []) = (cum', dr', out2)" and
    o: "out = out1 @ out2" by (rule batch_step)
  have "unique_of cum r \<le> unique_of cum1 r" by (simp add: step_unique_of[OF s1])
  moreover have "map_of cum r \<noteq> None \<longrightarrow> map_of cum1 r \<noteq> None"
    using step_present[OF s1] by blast
  ultimately show ?case using Cons.IH[OF s2] by force
qed

lemma step_local:
  assumes "process_repo c rep (cumA, drA, []) = (a1, a2, a3)"
    and "process_repo c rep (cumB, drB, []) = (b1, b2, b3)"
    and "map_of cumA (repo_name rep) = map_of cumB (repo_name rep)"
    and "map_of drA (repo_name rep) = map_of drB (repo_name rep)"
  shows "map_of a1 (repo_name rep) = map_of b1 (repo_name rep)
       \<and> map_of a2 (repo_name rep) = map_of b2 (repo_name rep) \<and> a3 = b3"
  using assms(3,4)
  by (simp add: step_parts[OF assms(1)] step_parts[OF assms(2)])

lemma batch_at:
  assumes "process_all steps (cum, dr, []) = (cum', dr', out)"
    and "distinct (map (\<lambda>p. repo_name (snd p)) steps)"
    and "(c, rep) \<in> set steps"
    and "process_repo c rep (cum, dr, []) = (cum1, dr1, out1)"
  shows "map_of cum' (repo_name rep) = map_of cum1 (repo_name rep)
       \<and> map_of dr' (repo_name rep) = map_of dr1 (repo_name rep)
       \<and> additions (repo_name rep) out = out1"
  using assms
proof (induction steps arbitrary: cum dr out cum1 dr1 out1)
  case Nil
  then show ?case by simp
next
  case (Cons p steps)
  obtain cx x where p: "p = (cx, x)" by (cases p)
  from Cons.prems(1)[unfolded p] obtain cumx drx outx out2 where
    sx: "process_repo cx x (cum, dr, []) = (cumx, drx, outx)" and
    s2: "process_all steps (cumx, drx, []) = (cum', dr', out2)" and
    o: "out = outx @ out2" by (rule batch_step)
  have dis: "distinct (map (\<lambda>p. repo_name (snd p)) steps)" using Cons.prems(2) by simp
  show ?case
  proof (cases "p = (c, rep)")
    case True
    then have cx: "cx = c" "x = rep" by (simp_all add: p)
    have eq: "cumx = cum1" "drx = dr1" "outx = out1"
      using sx Cons.prems(4) by (simp_all add: cx)
    have nin: "repo_name rep \<notin> repo_name ` snd ` set steps"
      using Cons.prems(2) by (auto simp add: p cx image_iff)
    have "additions (repo_name rep) out1 = out1"
      using step_additions[OF Cons.prems(4), of "repo_name rep"] by simp
    then show ?thesis
      using batch_frame[OF s2 nin] by (simp add: o eq additions_append)
  next
    case False
    then have mem: "(c, rep) \<in> set steps" using Cons.prems(3) by simp
    have ne: "repo_name x \<noteq> repo_name rep"
      using Cons.prems(2) mem by (force simp add: p)
    obtain cum2 dr2 out3 where s3: "process_repo c rep (cumx, drx, []) = (cum2, dr2, out3)"
      by (cases "process_repo c rep (cumx, drx, [])") auto
    have loc: "map_of cum2 (repo_name rep) = map_of cum1 (repo_name rep)
       \<and> map_of dr2 (repo_name rep) = map_of dr1 (repo_name rep) \<and> out3 = out1"
      using step_local[OF s3 Cons.prems(4)] step_frame[OF sx ne] by simp
    have "additions (repo_name rep) outx = []"
      using step_additions[OF sx, of "repo_name rep"] ne by simp
    then show ?thesis
      using Cons.IH[OF s2 dis mem s3] loc by (simp add: o additions_append)
  qed
qed

text \<open>
  C6 (absent-repo persistence). A repository with no report in the batch keeps its entry
  of \<^verbatim>\<open>cumulative_totals\<close> and its ledger exactly as they were stored: no field is
  updated, nothing is pruned from the ledger, nothing is deleted (and a repository that
  had no entry gets none).
\<close>

theorem absent_repo_persistence:
  assumes "calculate_cumulative_totals cutoff_at batch h = (cum', dr', out)"
    and "r \<notin> repo_name ` set batch"
  shows "map_of cum' r = map_of (cumulative_totals h) r
       \<and> map_of dr' r = map_of (daily_records h) r"
proof -
  have "r \<notin> repo_name ` snd ` set (readings cutoff_at batch)"
    unfolding readings_set_snd by (rule assms(2))
  from batch_frame[OF assms(1)[unfolded calculate_cumulative_totals_def] this]
  show ?thesis by simp
qed

theorem absent_repo_persistence_witness:
  "map_of (fst (calculate_cumulative_totals (\<lambda>i. ''2023-12-05'') [scenario_report_2]
       two_repo_state)) ''A''
     = Some \<lparr>total_clones = 4, total_unique = 1, first_tracked = ''2023-01-02 06:00:00'',
              last_updated = Some ''2023-01-02 06:00:00''\<rparr>
   \<and> map_of (fst (snd (calculate_cumulative_totals (\<lambda>i. ''2023-12-05'') [scenario_report_2]
          two_repo_state))) ''A''
     = Some [(''2023-01-01'', \<lparr>count = 4, uniques = 1\<rparr>)]"
proof -
  define res where "res = calculate_cumulative_totals (\<lambda>i. ''2023-12-05'') [scenario_report_2]
      two_repo_state"
  have run: "calculate_cumulative_totals (\<lambda>i. ''2023-12-05'') [scenario_report_2] two_repo_state
      = (fst res, fst (snd res), snd (snd res))"
    by (simp add: res_def)
  have a: "''A'' \<notin> repo_name ` set [scenario_report_2]"
    by (simp add: scenario_report_2_def)
  from absent_repo_persistence[OF run a] show ?thesis
    by (simp add: res_def two_repo_state_def)
qed

text \<open>
  C7 (monotonicity). When no daily count of the batch is negative, a run decreases no
  repository's \<^verbatim>\<open>total_clones\<close> and no repository's \<^verbatim>\<open>total_unique\<close>, and removes no
  entry; and when the batch has one report per repository, \<^verbatim>\<open>total_unique\<close> of a
  reported repository becomes exactly the maximum of its old value (0 for a repository
  without an entry) and the report's \<^verbatim>\<open>period_unique\<close>.
\<close>

theorem totals_monotone:
  assumes "calculate_cumulative_totals cutoff_at batch h = (cum', dr', out)"
    and "\<forall>rep \<in> set batch. \<forall>(d, s) \<in> set (daily_breakdown rep). 0 \<le> count s"
  shows "(\<forall>r. total_of (cumulative_totals h) r \<le> total_of cum' r
            \<and> unique_of (cumulative_totals h) r \<le> unique_of cum' r
            \<and> (map_of (cumulative_totals h) r \<noteq> None \<longrightarrow> map_of cum' r \<noteq> None))
       \<and> (distinct (map repo_name batch) \<longrightarrow>
            (\<forall>rep \<in> set batch. unique_of cum' (repo_name rep)
               = max (unique_of (cumulative_totals h) (repo_name rep)) (period_unique rep)))"
proof -
  note run = assms(1)[unfolded calculate_cumulative_totals_def]
  have nn: "\<forall>(c, rep) \<in> set (readings cutoff_at batch).
      \<forall>(d, s) \<in> set (daily_breakdown rep). 0 \<le> count s"
    using assms(2) readings_set_snd[of cutoff_at batch] by force
  have nonneg: "\<forall>m \<in> set out. 0 \<le> add_count m"
    by (rule batch_out_nonneg[OF run nn])
  have tot: "total_of (cumulative_totals h) r \<le> total_of cum' r" for r
  proof -
    have "0 \<le> sum_list (map add_count (additions r out))"
      using nonneg by (intro sum_list_nonneg) (auto simp add: additions_def)
    then show ?thesis using batch_total_of[OF run, of r] by simp
  qed
  have exact: "unique_of cum' (repo_name rep)
      = max (unique_of (cumulative_totals h) (repo_name rep)) (period_unique rep)"
    if dis: "distinct (map repo_name batch)" and mem: "rep \<in> set batch" for rep
  proof -
    from mem obtain c where cm: "(c, rep) \<in> set (readings cutoff_at batch)"
      using readings_set_snd[of cutoff_at batch] by force
    have dis': "distinct (map (\<lambda>p. repo_name (snd p)) (readings cutoff_at batch))"
      using dis by (simp only: readings_names)
    obtain cum1 dr1 out1 where s1: "process_repo c rep
        (cumulative_totals h, daily_records h, []) = (cum1, dr1, out1)"
      by (cases "process_repo c rep (cumulative_totals h, daily_records h, [])") auto
    have "map_of cum' (repo_name rep) = map_of cum1 (repo_name rep)"
      using batch_at[OF run dis' cm s1] by simp
    then have "unique_of cum' (repo_name rep) = unique_of cum1 (repo_name rep)"
      by (simp add: unique_of_def)
    then show ?thesis by (simp add: step_unique_of[OF s1])
  qed
  show ?thesis using tot batch_unique_mono[OF run] exact by blast
qed

theorem totals_monotone_witness:
  "total_of (cumulative_totals two_repo_state) ''X''
     \<le> total_of (fst (calculate_cumulative_totals (\<lambda>i. ''2023-12-05'') [scenario_report_2]
          two_repo_state)) ''X''
   \<and> unique_of (fst (calculate_cumulative_totals (\<lambda>i. ''2023-12-05'') [scenario_report_2]
          two_repo_state)) ''X'' = max 5 6"
proof -
  define res where "res = calculate_cumulative_totals (\<lambda>i. ''2023-12-05'') [scenario_report_2]
      two_repo_state"
  have run: "calculate_cumulative_totals (\<lambda>i. ''2023-12-05'') [scenario_report_2] two_repo_state
      = (fst res, fst (snd res), snd (snd res))"
    by (simp add: res_def)
  have nn: "\<forall>rep \<in> set [scenario_report_2]. \<forall>(d, s) \<in> set (daily_breakdown rep). 0 \<le> count s"
    by (simp add: scenario_report_2_def)
  have dis: "distinct (map repo_name [scenario_report_2])" by simp
  have u: "unique_of (cumulative_totals two_repo_state) ''X'' = 5"
    by (simp add: unique_of_def two_repo_state_def)
  have p: "repo_name scenario_report_2 = ''X''" "period_unique scenario_report_2 = 6"
    by (simp_all add: scenario_report_2_def)
  from totals_monotone[OF run nn] dis u p show ?thesis
    by (simp add: res_def)
qed

lemma batch_maps:
  assumes "fold (process_repo c) batch (cum, dr, out0) = (cum', dr', out)"
  shows "(map_of cum', map_of dr') = fold (merge_report c) batch (map_of cum, map_of dr)"
  using assms
proof (induction batch arbitrary: cum dr out0)
  case Nil
  then show ?case by simp
next
  case (Cons rep batch)
  obtain cum1 dr1 out1 where s1: "process_repo c rep (cum, dr, out0) = (cum1, dr1, out1)"
    by (cases "process_repo c rep (cum, dr, out0)") auto
  have s2: "fold (process_repo c) batch (cum1, dr1, out1) = (cum', dr', out)"
    using Cons.prems by (simp add: s1)
  show ?case
    using Cons.IH[OF s2] process_repo_maps[OF s1] by simp
qed

lemma merge_report_commute:
  assumes "repo_name x \<noteq> repo_name y"
  shows "merge_report c x (merge_report c y m) = merge_report c y (merge_report c x m)"
proof -
  obtain totals ledgers where m: "m = (totals, ledgers)" by (cases m)
  have ne: "repo_name y \<noteq> repo_name x" using assms by simp
  show ?thesis
    unfolding m merge_report_def Let_def
    by (simp add: assms ne fun_upd_twist[OF assms])
qed

lemma fold_merge_permute:
  assumes "distinct (map repo_name batch)" and "mset batch' = mset batch"
  shows "fold (merge_report c) batch' m = fold (merge_report c) batch m"
proof -
  have comm: "merge_report c x \<circ> merge_report c y = merge_report c y \<circ> merge_report c x"
    if "x \<in> set batch" "y \<in> set batch" for x y
  proof (cases "x = y")
    case True
    then show ?thesis by simp
  next
    case False
    then have "repo_name x \<noteq> repo_name y"
      using that assms(1) by (auto simp add: distinct_map inj_on_def)
    then show ?thesis by (simp add: fun_eq_iff merge_report_commute)
  qed
  have "fold (merge_report c) batch = fold (merge_report c) batch'"
    by (rule fold_multiset_equiv) (use comm assms(2) in auto)
  then show ?thesis by simp
qed

lemma sum_added_permute:
  fixes bd bd' :: ledger
  assumes "distinct (map fst bd)" and "mset bd' = mset bd"
  shows "sum_list (map (\<lambda>(d, s). count s) (added_days led bd'))
       = sum_list (map (\<lambda>(d, s). count s) (added_days led bd))"
proof -
  have "mset (map fst bd') = mset (map fst bd)" using assms(2) by (metis mset_map)
  then have d': "distinct (map fst bd')" using assms(1) by (metis mset_eq_imp_distinct_iff)
  have "mset (map (\<lambda>(d, s). count s) (filter (\<lambda>(d, s). map_of led d = None) bd'))
      = mset (map (\<lambda>(d, s). count s) (filter (\<lambda>(d, s). map_of led d = None) bd))"
    using assms(2) by simp
  then have "sum_list (map (\<lambda>(d, s). count s) (filter (\<lambda>(d, s). map_of led d = None) bd'))
      = sum_list (map (\<lambda>(d, s). count s) (filter (\<lambda>(d, s). map_of led d = None) bd))"
    by (metis sum_mset_sum_list)
  then show ?thesis by (simp add: added_days_distinct[OF assms(1)] added_days_distinct[OF d'])
qed


lemma step_total_permute:
  assumes "process_repo c rep (cum, dr, []) = (cum1, dr1, out1)"
    and "process_repo c (rep\<lparr>daily_breakdown := bd'\<rparr>) (cum, dr, []) = (cum2, dr2, out2)"
    and "distinct (map fst (daily_breakdown rep))"
    and "mset bd' = mset (daily_breakdown rep)"
  shows "map_of cum2 (repo_name rep) = map_of cum1 (repo_name rep)"
  using sum_added_permute[OF assms(3,4)]
  by (simp add: step_parts(1)[OF assms(1)] step_parts(1)[OF assms(2)] new_totals_def
      split: option.splits)

lemma totals_any_order:
  assumes "process_all s1 (cum, dr, []) = (c1, d1, o1)"
    and "process_all s2 (cum, dr, []) = (c2, d2, o2)"
    and "distinct (map (\<lambda>p. repo_name (snd p)) s1)"
    and "distinct (map (\<lambda>p. repo_name (snd p)) s2)"
    and "snd ` set s1 = snd ` set s2"
  shows "map_of c2 r = map_of c1 r"
proof (cases "r \<in> repo_name ` snd ` set s1")
  case False
  moreover from False have "r \<notin> repo_name ` snd ` set s2" using assms(5) by simp
  ultimately show ?thesis using batch_frame[OF assms(1)] batch_frame[OF assms(2)] by simp
next
  case True
  then obtain ca rep where m1: "(ca, rep) \<in> set s1" and r: "r = repo_name rep" by force
  then have "rep \<in> snd ` set s2" using assms(5) by force
  then obtain cb where m2: "(cb, rep) \<in> set s2" by force
  obtain a1 a2 a3 where p1: "process_repo ca rep (cum, dr, []) = (a1, a2, a3)"
    by (cases "process_repo ca rep (cum, dr, [])") auto
  obtain b1 b2 b3 where p2: "process_repo cb rep (cum, dr, []) = (b1, b2, b3)"
    by (cases "process_repo cb rep (cum, dr, [])") auto
  have "map_of b1 = map_of a1"
    by (simp add: step_parts(1)[OF p1] step_parts(1)[OF p2])
  then show ?thesis
    using batch_at[OF assms(1) assms(3) m1 p1] batch_at[OF assms(2) assms(4) m2 p2]
    by (simp add: r)
qed

text \<open>
  C4 (order independence), as the loop does it. The claim fails for the daily-records
  dictionary: every iteration computes its own cutoff from the clock, so when a run passes
  midnight the cutoff a repository is pruned with depends on its position in the batch.
  Below both repositories hold 2023-12-05, the first iteration computes the cutoff
  2023-12-05 and the second 2023-12-06: the repository processed second loses the day.
\<close>

theorem order_independence_counterexample:
  "distinct (map repo_name [report_a, scenario_report_2])
   \<and> mset [scenario_report_2, report_a] = mset [report_a, scenario_report_2]
   \<and> map_of (fst (snd (calculate_cumulative_totals midnight_clock
          [scenario_report_2, report_a] midnight_state)))
     \<noteq> map_of (fst (snd (calculate_cumulative_totals midnight_clock
          [report_a, scenario_report_2] midnight_state)))"
proof -
  have e1: "map_of (fst (snd (calculate_cumulative_totals midnight_clock
          [report_a, scenario_report_2] midnight_state))) ''A''
      = Some [(''2023-12-05'', \<lparr>count = 4, uniques = 1\<rparr>),
              (''2023-12-30'', \<lparr>count = 2, uniques = 1\<rparr>),
              (''2024-01-02'', \<lparr>count = 7, uniques = 3\<rparr>)]"
    by code_simp
  have e2: "map_of (fst (snd (calculate_cumulative_totals midnight_clock
          [scenario_report_2, report_a] midnight_state))) ''A''
      = Some [(''2023-12-30'', \<lparr>count = 2, uniques = 1\<rparr>),
              (''2024-01-02'', \<lparr>count = 7, uniques = 3\<rparr>)]"
    by code_simp
  have ne: "map_of (fst (snd (calculate_cumulative_totals midnight_clock
          [scenario_report_2, report_a] midnight_state)))
     \<noteq> map_of (fst (snd (calculate_cumulative_totals midnight_clock
          [report_a, scenario_report_2] midnight_state)))"
  proof
    assume "map_of (fst (snd (calculate_cumulative_totals midnight_clock
          [scenario_report_2, report_a] midnight_state)))
     = map_of (fst (snd (calculate_cumulative_totals midnight_clock
          [report_a, scenario_report_2] midnight_state)))"
    then have "map_of (fst (snd (calculate_cumulative_totals midnight_clock
          [scenario_report_2, report_a] midnight_state))) ''A''
     = map_of (fst (snd (calculate_cumulative_totals midnight_clock
          [report_a, scenario_report_2] midnight_state))) ''A''"
      by simp
    then show False unfolding e1 e2 by simp
  qed
  have d: "distinct (map repo_name [report_a, scenario_report_2])"
    by (simp add: scenario_report_2_def report_a_def)
  have m: "mset [scenario_report_2, report_a] = mset [report_a, scenario_report_2]"
    by (simp add: add_mset_commute)
  from d m ne show ?thesis by blast
qed

text \<open>
  C4, amended. Let the batch have one report per repository. Processing the reports in
  any other order returns the same \<^verbatim>\<open>cumulative_totals\<close> dictionary (the same keys with the
  same values), whatever cutoffs the iterations compute; it returns the same
  \<^verbatim>\<open>daily_records\<close> dictionary when all iterations of the run compute the same cutoff
  (the run does not pass midnight). Only the position of newly created keys differs. And
  listing the days of one report's breakdown (distinct days, as the keys of a dictionary
  are) in any other order leaves that repository's entry of \<^verbatim>\<open>cumulative_totals\<close>, hence
  its \<^verbatim>\<open>total_clones\<close>, the same.
\<close>

theorem order_independence:
  assumes "distinct (map repo_name batch)"
  shows "(\<forall>batch' cutoff_at'. mset batch' = mset batch \<longrightarrow>
            map_of (fst (calculate_cumulative_totals cutoff_at' batch' h))
              = map_of (fst (calculate_cumulative_totals cutoff_at batch h)))
       \<and> (\<forall>batch' c. mset batch' = mset batch \<and> (\<forall>i<length batch. cutoff_at i = c) \<longrightarrow>
            map_of (fst (snd (calculate_cumulative_totals cutoff_at batch' h)))
              = map_of (fst (snd (calculate_cumulative_totals cutoff_at batch h))))
       \<and> (\<forall>xs rep ys bd'. batch = xs @ rep # ys
            \<and> distinct (map fst (daily_breakdown rep)) \<and> mset bd' = mset (daily_breakdown rep) \<longrightarrow>
            map_of (fst (calculate_cumulative_totals cutoff_at
                (xs @ rep\<lparr>daily_breakdown := bd'\<rparr> # ys) h)) (repo_name rep)
              = map_of (fst (calculate_cumulative_totals cutoff_at batch h)) (repo_name rep))"
proof (intro conjI allI impI)
  fix batch' cl'
  assume p: "mset batch' = mset batch"
  obtain cum1 dr1 out1 where r1: "process_all (readings cutoff_at batch)
      (cumulative_totals h, daily_records h, []) = (cum1, dr1, out1)"
    by (cases "process_all (readings cutoff_at batch)
      (cumulative_totals h, daily_records h, [])") auto
  obtain cum2 dr2 out2 where r2: "process_all (readings cl' batch')
      (cumulative_totals h, daily_records h, []) = (cum2, dr2, out2)"
    by (cases "process_all (readings cl' batch')
      (cumulative_totals h, daily_records h, [])") auto
  have "mset (map repo_name batch') = mset (map repo_name batch)" using p by simp
  then have "distinct (map repo_name batch')"
    using assms by (metis mset_eq_imp_distinct_iff)
  then have d2: "distinct (map (\<lambda>p. repo_name (snd p)) (readings cl' batch'))"
    by (simp only: readings_names)
  have d1: "distinct (map (\<lambda>p. repo_name (snd p)) (readings cutoff_at batch))"
    using assms by (simp only: readings_names)
  have "set batch' = set batch" using p by (rule mset_eq_setD)
  then have s: "snd ` set (readings cutoff_at batch) = snd ` set (readings cl' batch')"
    by (simp only: readings_set_snd)
  have "map_of cum2 r = map_of cum1 r" for r
    by (rule totals_any_order[OF r1 r2 d1 d2 s])
  then show "map_of (fst (calculate_cumulative_totals cl' batch' h))
      = map_of (fst (calculate_cumulative_totals cutoff_at batch h))"
    by (simp add: calculate_cumulative_totals_def r1 r2 fun_eq_iff)
next
  fix batch' c
  assume a: "mset batch' = mset batch \<and> (\<forall>i<length batch. cutoff_at i = c)"
  then have p: "mset batch' = mset batch" and k: "\<forall>i<length batch. cutoff_at i = c"
    by simp_all
  have "length batch' = length batch" using p by (rule mset_eq_length)
  then have k': "\<forall>i<length batch'. cutoff_at i = c" using k by simp
  obtain cum1 dr1 out1 where r1: "fold (process_repo c) batch
      (cumulative_totals h, daily_records h, []) = (cum1, dr1, out1)"
    by (cases "fold (process_repo c) batch (cumulative_totals h, daily_records h, [])") auto
  obtain cum2 dr2 out2 where r2: "fold (process_repo c) batch'
      (cumulative_totals h, daily_records h, []) = (cum2, dr2, out2)"
    by (cases "fold (process_repo c) batch' (cumulative_totals h, daily_records h, [])") auto
  have "(map_of cum2, map_of dr2) = (map_of cum1, map_of dr1)"
    unfolding batch_maps[OF r1] batch_maps[OF r2] by (rule fold_merge_permute[OF assms p])
  then show "map_of (fst (snd (calculate_cumulative_totals cutoff_at batch' h)))
      = map_of (fst (snd (calculate_cumulative_totals cutoff_at batch h)))"
    by (simp add: calculate_cumulative_totals_def readings_const[OF k] readings_const[OF k']
        process_all_const r1 r2)
next
  fix xs rep ys bd'
  assume a: "batch = xs @ rep # ys
      \<and> distinct (map fst (daily_breakdown rep)) \<and> mset bd' = mset (daily_breakdown rep)"
  define rep' where "rep' = rep\<lparr>daily_breakdown := bd'\<rparr>"
  define c where "c = cutoff_at (length xs)"
  have nm: "repo_name rep' = repo_name rep" by (simp add: rep'_def)
  have dis': "distinct (map (\<lambda>p. repo_name (snd p)) (readings cutoff_at (xs @ rep' # ys)))"
    using assms a by (simp add: readings_names nm)
  have dis: "distinct (map (\<lambda>p. repo_name (snd p)) (readings cutoff_at (xs @ rep # ys)))"
    using assms a by (simp add: readings_names)
  have m1: "(c, rep) \<in> set (readings cutoff_at (xs @ rep # ys))"
    using readings_mem[of "length xs" "xs @ rep # ys" cutoff_at] by (simp add: c_def)
  have m2: "(c, rep') \<in> set (readings cutoff_at (xs @ rep' # ys))"
    using readings_mem[of "length xs" "xs @ rep' # ys" cutoff_at] by (simp add: c_def)
  obtain cum1 dr1 out1 where r1: "process_all (readings cutoff_at (xs @ rep # ys))
      (cumulative_totals h, daily_records h, []) = (cum1, dr1, out1)"
    by (cases "process_all (readings cutoff_at (xs @ rep # ys))
      (cumulative_totals h, daily_records h, [])") auto
  obtain cum2 dr2 out2 where r2: "process_all (readings cutoff_at (xs @ rep' # ys))
      (cumulative_totals h, daily_records h, []) = (cum2, dr2, out2)"
    by (cases "process_all (readings cutoff_at (xs @ rep' # ys))
      (cumulative_totals h, daily_records h, [])") auto
  obtain a1 a2 a3 where s1: "process_repo c rep
      (cumulative_totals h, daily_records h, []) = (a1, a2, a3)"
    by (cases "process_repo c rep (cumulative_totals h, daily_records h, [])") auto
  obtain b1 b2 b3 where s2: "process_repo c rep'
      (cumulative_totals h, daily_records h, []) = (b1, b2, b3)"
    by (cases "process_repo c rep' (cumulative_totals h, daily_records h, [])") auto
  have e1: "map_of cum1 (repo_name rep) = map_of a1 (repo_name rep)"
    using batch_at[OF r1 dis m1 s1] by simp
  have e2: "map_of cum2 (repo_name rep) = map_of b1 (repo_name rep)"
    using batch_at[OF r2 dis' m2 s2] by (simp add: nm)
  have e3: "map_of b1 (repo_name rep) = map_of a1 (repo_name rep)"
    using step_total_permute[OF s1 s2[unfolded rep'_def]] a by simp
  show "map_of (fst (calculate_cumulative_totals cutoff_at
                (xs @ rep\<lparr>daily_breakdown := bd'\<rparr> # ys) h)) (repo_name rep)
              = map_of (fst (calculate_cumulative_totals cutoff_at batch h)) (repo_name rep)"
    using a e1 e2 e3 r1 r2 by (simp add: calculate_cumulative_totals_def rep'_def)
qed

theorem order_independence_witness:
  "map_of (fst (calculate_cumulative_totals midnight_clock [report_a, scenario_report_2]
       two_repo_state))
     = map_of (fst (calculate_cumulative_totals (\<lambda>i. ''2023-12-05'')
       [scenario_report_2, report_a] two_repo_state))
   \<and> map_of (fst (snd (calculate_cumulative_totals (\<lambda>i. ''2023-12-05'')
       [report_a, scenario_report_2] two_repo_state)))
     = map_of (fst (snd (calculate_cumulative_totals (\<lambda>i. ''2023-12-05'')
       [scenario_report_2, report_a] two_repo_state)))
   \<and> map_of (fst (calculate_cumulative_totals (\<lambda>i. ''2023-12-05'')
       [scenario_report_2\<lparr>daily_breakdown := rev (daily_breakdown scenario_report_2)\<rparr>,
        report_a] two_repo_state)) ''X''
     = map_of (fst (calculate_cumulative_totals (\<lambda>i. ''2023-12-05'')
       [scenario_report_2, report_a] two_repo_state)) ''X''
   \<and> map_of (fst (calculate_cumulative_totals (\<lambda>i. ''2023-12-05'')
       [scenario_report_2, report_a] two_repo_state)) ''X''
     = Some \<lparr>total_clones = 9, total_unique = 6, first_tracked = ''2024-01-03 06:00:00'',
              last_updated = Some ''2024-01-04 06:00:00''\<rparr>"
proof -
  have dis: "distinct (map repo_name [scenario_report_2, report_a])"
    by (simp add: scenario_report_2_def report_a_def)
  note t = order_independence[OF dis, where cutoff_at = "\<lambda>i. ''2023-12-05''"
      and h = two_repo_state]
  have p: "mset [report_a, scenario_report_2] = mset [scenario_report_2, report_a]"
    by (simp add: add_mset_commute)
  have p2: "mset [report_a, scenario_report_2] = mset [scenario_report_2, report_a]
      \<and> (\<forall>i<length [scenario_report_2, report_a]. (\<lambda>i. ''2023-12-05'') i = ''2023-12-05'')"
    using p by simp
  have q: "[scenario_report_2, report_a] = [] @ scenario_report_2 # [report_a]
      \<and> distinct (map fst (daily_breakdown scenario_report_2))
      \<and> mset (rev (daily_breakdown scenario_report_2)) = mset (daily_breakdown scenario_report_2)"
    by (simp add: scenario_report_2_def)
  have n: "repo_name scenario_report_2 = ''X''" by (simp add: scenario_report_2_def)
  have v: "map_of (fst (calculate_cumulative_totals (\<lambda>i. ''2023-12-05'')
       [scenario_report_2, report_a] two_repo_state)) ''X''
     = Some \<lparr>total_clones = 9, total_unique = 6, first_tracked = ''2024-01-03 06:00:00'',
              last_updated = Some ''2024-01-04 06:00:00''\<rparr>"
    by code_simp
  from t[THEN conjunct1, rule_format, OF p, of midnight_clock]
    t[THEN conjunct2, THEN conjunct1, rule_format, OF p2]
    t[THEN conjunct2, THEN conjunct2, rule_format, OF q] v
  show ?thesis by (simp add: n)
qed

lemma batch_ledger_at:
  assumes "process_all steps (cum, dr, []) = (cum', dr', out)"
    and "distinct (map (\<lambda>p. repo_name (snd p)) steps)" and "(c, rep) \<in> set steps"
  shows "ledger_at dr' (repo_name rep) d =
           (if d < c then None
            else case ledger_at dr (repo_name rep) d of Some v \<Rightarrow> Some v
                 | None \<Rightarrow> map_of (daily_breakdown rep) d)"
    and "additions_on (repo_name rep) d out =
           (if ledger_at dr (repo_name rep) d = None
            then (case map_of (daily_breakdown rep) d of None \<Rightarrow> []
                  | Some s \<Rightarrow> [Adding (count s) d (repo_name rep)])
            else [])"
proof -
  obtain a1 a2 a3 where s1: "process_repo c rep (cum, dr, []) = (a1, a2, a3)"
    by (cases "process_repo c rep (cum, dr, [])") auto
  note at = batch_at[OF assms s1]
  have "ledger_at dr' (repo_name rep) d = ledger_at a2 (repo_name rep) d"
    using at by (simp add: ledger_at_def)
  also have "\<dots> = (if c \<le> d then (case ledger_at dr (repo_name rep) d of Some v \<Rightarrow> Some v
                                | None \<Rightarrow> map_of (daily_breakdown rep) d) else None)"
    using step_ledger_at[OF s1, of "repo_name rep" d] by simp
  finally show "ledger_at dr' (repo_name rep) d =
           (if d < c then None
            else case ledger_at dr (repo_name rep) d of Some v \<Rightarrow> Some v
                 | None \<Rightarrow> map_of (daily_breakdown rep) d)"
    by auto
  have "additions_on (repo_name rep) d out = filter (\<lambda>m. add_day m = d) a3"
    using at by (simp add: additions_on_additions)
  also have "\<dots> = additions_on (repo_name rep) d a3"
    using step_additions[OF s1, of "repo_name rep"] by (simp add: additions_on_additions)
  finally show "additions_on (repo_name rep) d out =
           (if ledger_at dr (repo_name rep) d = None
            then (case map_of (daily_breakdown rep) d of None \<Rightarrow> []
                  | Some s \<Rightarrow> [Adding (count s) d (repo_name rep)])
            else [])"
    using step_additions_on[OF s1, of "repo_name rep" d] by simp
qed

text \<open>
  C5 (retention pruning), as the loop does it. The claim that every run prunes every
  repository's ledger fails: pruning is part of the loop body, so a repository without a
  report in the batch keeps ledger entries dated before the cutoff. Below, \<open>A\<close> has no
  report, its ledger holds 2023-01-01, the cutoff is 2023-12-05, and the entry is still
  there after the run.
\<close>

theorem retention_pruning_counterexample:
  "''2023-01-01'' < ''2023-12-05''
   \<and> ''A'' \<notin> repo_name ` set [scenario_report_2]
   \<and> ledger_at (daily_records two_repo_state) ''A'' ''2023-01-01''
       = Some \<lparr>count = 4, uniques = 1\<rparr>
   \<and> ledger_at (fst (snd (calculate_cumulative_totals (\<lambda>i. ''2023-12-05'')
         [scenario_report_2] two_repo_state))) ''A'' ''2023-01-01''
       = Some \<lparr>count = 4, uniques = 1\<rparr>"
proof -
  have "ledger_at (fst (snd (calculate_cumulative_totals (\<lambda>i. ''2023-12-05'')
         [scenario_report_2] two_repo_state))) ''A'' ''2023-01-01''
       = Some \<lparr>count = 4, uniques = 1\<rparr>"
    by code_simp
  then show ?thesis
    by (simp add: scenario_report_2_def two_repo_state_def ledger_at_def)
qed

text \<open>
  C5, amended. Let the batch have one report per repository. For every repository with a
  report, the ledger after the run is the ledger before it, completed by the report's days
  it did not hold, without exactly the days strictly before the cutoff that the iteration
  of this report computed; a repository without a report keeps its ledger unpruned. The
  cutoffs have no influence on the returned \<^verbatim>\<open>cumulative_totals\<close>: pruning never changes a
  total. A day that the ledger does not hold (for instance because an earlier run pruned
  it) and that the report contains is treated as new: exactly one addition with the
  reported count is printed for it, and the growth of \<^verbatim>\<open>total_clones\<close> is the sum of the
  printed additions, so the day is counted again.
\<close>

theorem retention_pruning:
  assumes "calculate_cumulative_totals cutoff_at batch h = (cum', dr', out)"
    and "distinct (map repo_name batch)"
  shows "(\<forall>i<length batch. \<forall>d. ledger_at dr' (repo_name (batch ! i)) d =
            (if d < cutoff_at i then None
             else case ledger_at (daily_records h) (repo_name (batch ! i)) d of
                    Some v \<Rightarrow> Some v
                  | None \<Rightarrow> map_of (daily_breakdown (batch ! i)) d))
       \<and> (\<forall>r. r \<notin> repo_name ` set batch \<longrightarrow> map_of dr' r = map_of (daily_records h) r)
       \<and> (\<forall>cutoff_at2. map_of (fst (calculate_cumulative_totals cutoff_at2 batch h))
            = map_of cum')
       \<and> (\<forall>rep \<in> set batch. \<forall>d s.
            ledger_at (daily_records h) (repo_name rep) d = None
            \<and> map_of (daily_breakdown rep) d = Some s \<longrightarrow>
            additions_on (repo_name rep) d out = [Adding (count s) d (repo_name rep)])
       \<and> (\<forall>r. total_of cum' r
            = total_of (cumulative_totals h) r + sum_list (map add_count (additions r out)))"
proof -
  note run = assms(1)[unfolded calculate_cumulative_totals_def]
  have dis: "distinct (map (\<lambda>p. repo_name (snd p)) (readings cl batch))" for cl
    using assms(2) by (simp only: readings_names)
  have free: "map_of (fst (calculate_cumulative_totals cl2 batch h)) = map_of cum'" for cl2
  proof -
    obtain cum2 dr2 out2 where r2: "process_all (readings cl2 batch)
        (cumulative_totals h, daily_records h, []) = (cum2, dr2, out2)"
      by (cases "process_all (readings cl2 batch)
        (cumulative_totals h, daily_records h, [])") auto
    have s: "snd ` set (readings cutoff_at batch) = snd ` set (readings cl2 batch)"
      by (simp only: readings_set_snd)
    have "map_of cum2 r = map_of cum' r" for r
      by (rule totals_any_order[OF run r2 dis dis s])
    then show ?thesis by (simp add: calculate_cumulative_totals_def r2 fun_eq_iff)
  qed
  have c1: "\<forall>i<length batch. \<forall>d. ledger_at dr' (repo_name (batch ! i)) d =
            (if d < cutoff_at i then None
             else case ledger_at (daily_records h) (repo_name (batch ! i)) d of
                    Some v \<Rightarrow> Some v
                  | None \<Rightarrow> map_of (daily_breakdown (batch ! i)) d)"
    using batch_ledger_at(1)[OF run dis readings_mem] by blast
  have c2: "\<forall>r. r \<notin> repo_name ` set batch \<longrightarrow> map_of dr' r = map_of (daily_records h) r"
    using batch_frame[OF run] by (simp add: readings_set_snd)
  have c4: "\<forall>rep \<in> set batch. \<forall>d s.
            ledger_at (daily_records h) (repo_name rep) d = None
            \<and> map_of (daily_breakdown rep) d = Some s \<longrightarrow>
            additions_on (repo_name rep) d out = [Adding (count s) d (repo_name rep)]"
  proof (intro ballI allI impI)
    fix rep d s
    assume m: "rep \<in> set batch"
      and a: "ledger_at (daily_records h) (repo_name rep) d = None
            \<and> map_of (daily_breakdown rep) d = Some s"
    from m obtain i where "i < length batch" "batch ! i = rep" by (auto simp: in_set_conv_nth)
    then have "(cutoff_at i, rep) \<in> set (readings cutoff_at batch)"
      using readings_mem[of i batch cutoff_at] by simp
    from batch_ledger_at(2)[OF run dis this, of d] a
    show "additions_on (repo_name rep) d out = [Adding (count s) d (repo_name rep)]" by simp
  qed
  have c5: "\<forall>r. total_of cum' r
            = total_of (cumulative_totals h) r + sum_list (map add_count (additions r out))"
    using batch_total_of[OF run] by simp
  from c1 c2 free c4 c5 show ?thesis by blast
qed

theorem retention_pruning_witness:
  "fst (calculate_cumulative_totals (\<lambda>i. ''2024-01-03'') [scenario_report_2] scenario_state_1)
     = cumulative_totals pruned_state
   \<and> fst (snd (calculate_cumulative_totals (\<lambda>i. ''2024-01-03'') [scenario_report_2]
        scenario_state_1))
     = daily_records pruned_state
   \<and> ledger_at (daily_records scenario_state_1) ''X'' ''2024-01-02''
     = Some \<lparr>count = 5, uniques = 4\<rparr>
   \<and> ledger_at (daily_records pruned_state) ''X'' ''2024-01-02'' = None
   \<and> additions_on ''X'' ''2024-01-02''
       (snd (snd (calculate_cumulative_totals (\<lambda>i. ''2024-01-03'') [scenario_report_2]
          pruned_state)))
     = [Adding 99 ''2024-01-02'' ''X'']
   \<and> total_of (fst (calculate_cumulative_totals (\<lambda>i. ''2024-01-03'') [scenario_report_2]
        pruned_state)) ''X'' = 108
   \<and> total_of (fst (calculate_cumulative_totals (\<lambda>i. ''2023-12-05'') [scenario_report_2]
        pruned_state)) ''X'' = 108"
proof -
  define res where "res = calculate_cumulative_totals (\<lambda>i. ''2024-01-03'')
      [scenario_report_2] pruned_state"
  have run: "calculate_cumulative_totals (\<lambda>i. ''2024-01-03'') [scenario_report_2] pruned_state
      = (fst res, fst (snd res), snd (snd res))"
    by (simp add: res_def)
  have dis: "distinct (map repo_name [scenario_report_2])" by simp
  note t = retention_pruning[OF run dis]
  have a: "fst (calculate_cumulative_totals (\<lambda>i. ''2024-01-03'') [scenario_report_2]
        scenario_state_1) = cumulative_totals pruned_state"
    by code_simp
  have b: "fst (snd (calculate_cumulative_totals (\<lambda>i. ''2024-01-03'') [scenario_report_2]
        scenario_state_1)) = daily_records pruned_state"
    by code_simp
  have l0: "ledger_at (daily_records scenario_state_1) ''X'' ''2024-01-02''
     = Some \<lparr>count = 5, uniques = 4\<rparr>"
    by (simp add: ledger_at_def scenario_state_1_def)
  have n: "repo_name scenario_report_2 = ''X''" by (simp add: scenario_report_2_def)
  have l: "ledger_at (daily_records pruned_state) (repo_name scenario_report_2) ''2024-01-02'' = None
      \<and> map_of (daily_breakdown scenario_report_2) ''2024-01-02''
          = Some \<lparr>count = 99, uniques = 99\<rparr>"
    by (simp add: ledger_at_def pruned_state_def scenario_report_2_def)
  have m: "scenario_report_2 \<in> set [scenario_report_2]" by simp
  have v: "total_of (fst res) ''X'' = 108" unfolding res_def by code_simp
  note t4 = t[THEN conjunct2, THEN conjunct2, THEN conjunct2, THEN conjunct1, rule_format, OF m l]
  note t3 = t[THEN conjunct2, THEN conjunct2, THEN conjunct1, rule_format,
      of "\<lambda>i. ''2023-12-05''"]
  show ?thesis
    using a b l0 l t4 t3 v by (simp add: n res_def total_of_def)
qed

section \<open>The summary and the run\<close>

lemma step_keys:
  assumes "process_repo c rep (cum, dr, out0) = (cum', dr', out)"
  shows "fst ` set cum' = insert (repo_name rep) (fst ` set cum)"
    and "distinct (map fst cum) \<Longrightarrow> distinct (map fst cum')"
proof -
  have "\<exists>e. cum' = AList.update (repo_name rep) e cum"
    using assms by (auto simp add: process_repo_closed Let_def)
  then obtain e where e: "cum' = AList.update (repo_name rep) e cum" ..
  show "fst ` set cum' = insert (repo_name rep) (fst ` set cum)"
    unfolding e by (simp add: dom_update)
  show "distinct (map fst cum) \<Longrightarrow> distinct (map fst cum')"
    unfolding e by (rule distinct_update)
qed

lemma batch_keys:
  assumes "process_all steps (cum, dr, out0) = (cum', dr', out)"
  shows "fst ` set cum' = fst ` set cum \<union> repo_name ` snd ` set steps
       \<and> (distinct (map fst cum) \<longrightarrow> distinct (map fst cum'))"
  using assms
proof (induction steps arbitrary: cum dr out0)
  case Nil
  then show ?case by (simp add: process_all_Nil)
next
  case (Cons p steps)
  obtain c rep where p: "p = (c, rep)" by (cases p)
  obtain cum1 dr1 out1 where s1: "process_repo c rep (cum, dr, out0) = (cum1, dr1, out1)"
    by (cases "process_repo c rep (cum, dr, out0)") auto
  have s2: "process_all steps (cum1, dr1, out1) = (cum', dr', out)"
    using Cons.prems by (simp add: p process_all_Cons s1)
  show ?case using Cons.IH[OF s2] step_keys[OF s1] by (auto simp add: p)
qed

lemma fetch_length:
  "length (fst (fold (fetch_repo ts today) repos (acc, s, f)))
     = length acc + length (filter (\<lambda>p. \<not> isl (snd p)) repos)"
proof (induction repos arbitrary: acc s f)
  case Nil
  show ?case by simp
next
  case (Cons p repos)
  obtain n res where p: "p = (n, res)" by (cases p)
  show ?case by (cases res) (simp_all add: p Cons.IH)
qed

lemma sorted_reverse_props:
  fixes key :: "'a \<Rightarrow> int"
  shows "mset (sorted_reverse key xs) = mset xs"
    and "sorted_wrt (\<lambda>a b. key a \<ge> key b) (sorted_reverse key xs)"
    and "filter (\<lambda>e. key e = k) (sorted_reverse key xs) = filter (\<lambda>e. key e = k) xs"
proof -
  show "mset (sorted_reverse key xs) = mset xs" by (simp add: sorted_reverse_def)
  have "sorted (map (\<lambda>x. - key x) (sort_key (\<lambda>x. - key x) xs))" by (rule sorted_sort_key)
  then show "sorted_wrt (\<lambda>a b. key a \<ge> key b) (sorted_reverse key xs)"
    by (simp add: sorted_reverse_def sorted_map)
  have "filter (\<lambda>e. - key e = - k) (sort_key (\<lambda>x. - key x) xs) = filter (\<lambda>e. - key e = - k) xs"
    by (rule sort_key_stable)
  then show "filter (\<lambda>e. key e = k) (sorted_reverse key xs) = filter (\<lambda>e. key e = k) xs"
    by (simp add: sorted_reverse_def)
qed

text \<open>Entries with equal counts keep the order of the batch: here \<open>a\<close> stays before \<open>c\<close>.\<close>

lemma top_clones_period_ties:
  "map name (top_clones_period
     [\<lparr>timestamp = ''t'', date = ''d'', repo_name = ''a'', period_clones = 5,
       period_unique = 1, daily_breakdown = []\<rparr>,
      \<lparr>timestamp = ''t'', date = ''d'', repo_name = ''b'', period_clones = 9,
       period_unique = 2, daily_breakdown = []\<rparr>,
      \<lparr>timestamp = ''t'', date = ''d'', repo_name = ''c'', period_clones = 5,
       period_unique = 3, daily_breakdown = []\<rparr>]) = [''b'', ''a'', ''c'']"
  by (simp add: top_clones_period_def sorted_reverse_def)

text \<open>
  C8 (top lists). In the summary, the period list is the first 10 elements of a list that
  holds the batch's entries, is ordered by \<^verbatim>\<open>period_clones\<close> descending, and keeps the
  entries with equal \<^verbatim>\<open>period_clones\<close> in the order of the batch; the cumulative list is
  the first 10 elements of a list that holds the entries of \<^verbatim>\<open>cumulative_totals\<close>, is
  ordered by \<^verbatim>\<open>total_clones\<close> descending, and keeps the entries with equal
  \<^verbatim>\<open>total_clones\<close> in the dictionary's insertion order.
\<close>

theorem top_lists:
  "\<exists>ps cs.
     top_repositories (period_stats (make_summary clone_data ts today cum dr)) = take 10 ps
     \<and> mset ps = mset (map (\<lambda>r. \<lparr>name = repo_name r, clones = period_clones r,
                                   unique_clones = period_unique r\<rparr>) clone_data)
     \<and> sorted_wrt (\<lambda>a b. clones a \<ge> clones b) ps
     \<and> (\<forall>k. filter (\<lambda>e. clones e = k) ps
            = filter (\<lambda>e. clones e = k)
                (map (\<lambda>r. \<lparr>name = repo_name r, clones = period_clones r,
                            unique_clones = period_unique r\<rparr>) clone_data))
     \<and> top_repositories (cumulative_stats (make_summary clone_data ts today cum dr)) = take 10 cs
     \<and> mset cs = mset (map (\<lambda>(n, data). \<lparr>name = n, clones = total_clones data,
                                           unique_clones = total_unique data\<rparr>) cum)
     \<and> sorted_wrt (\<lambda>a b. clones a \<ge> clones b) cs
     \<and> (\<forall>k. filter (\<lambda>e. clones e = k) cs
            = filter (\<lambda>e. clones e = k)
                (map (\<lambda>(n, data). \<lparr>name = n, clones = total_clones data,
                                    unique_clones = total_unique data\<rparr>) cum))"
proof -
  let ?pe = "map (\<lambda>r. \<lparr>name = repo_name r, clones = period_clones r,
                        unique_clones = period_unique r\<rparr>) clone_data"
  let ?ce = "map (\<lambda>(n, data). \<lparr>name = n, clones = total_clones data,
                                unique_clones = total_unique data\<rparr>) cum"
  have p: "top_repositories (period_stats (make_summary clone_data ts today cum dr))
      = take 10 (sorted_reverse clones ?pe)"
    by (simp add: make_summary_def top_clones_period_def)
  have c: "top_repositories (cumulative_stats (make_summary clone_data ts today cum dr))
      = take 10 (sorted_reverse clones ?ce)"
    by (simp add: make_summary_def top_clones_cumulative_def)
  show ?thesis
    using p c sorted_reverse_props[where key = clones and xs = ?pe]
      sorted_reverse_props[where key = clones and xs = ?ce]
    by blast
qed

text \<open>
  C9 (zero-report run). When fetching returns an empty \<^verbatim>\<open>clone_data\<close>, \<^verbatim>\<open>main\<close> returns
  normally through its warning branch and both files are what they were: nothing is
  created, appended or rewritten, so the stored cumulative state is untouched.
\<close>

theorem zero_report_cycle:
  assumes "get_clone_stats env = Inr ([], ts, today)"
  shows "main env fs = (fs, Inr No_clone_data_warning)"
  by (simp add: main_def assms)

theorem zero_report_cycle_witness:
  "get_clone_stats failing_environment = Inr ([], ''2024-01-04 06:00:00'', ''2024-01-04'')
   \<and> main failing_environment example_files = (example_files, Inr No_clone_data_warning)"
proof -
  have g: "get_clone_stats failing_environment = Inr ([], ''2024-01-04 06:00:00'', ''2024-01-04'')"
    by (simp add: get_clone_stats_def failing_environment_def)
  from zero_report_cycle[OF g] g show ?thesis by simp
qed

lemma get_clone_stats_Inr:
  assumes "get_clone_stats env = Inr (clone_data, ts, today)"
  shows "\<exists>repos. get_repos env = Inr repos
       \<and> clone_data = fst (fold (fetch_repo (now_timestamp env) (now_today env)) repos ([], 0, 0))"
  using assms by (auto simp add: get_clone_stats_def split: if_splits sum.splits)

text \<open>
  What one run stores is what the next run loads: this is the step of \<open>run_cycles\<close>. A
  run with an empty batch stores nothing, and the loop on an empty batch returns the
  loaded dictionaries.
\<close>

lemma main_stores_state:
  assumes "get_clone_stats env = Inr (clone_data, ts, today)" and "clone_data \<noteq> []"
    and "calculate_cumulative_totals (now_cutoff_date env) clone_data (load_historical_data fs)
           = (cum', dr', out)"
  shows "cumulative_totals (load_historical_data (fst (main env fs))) = cum'"
    and "daily_records (load_historical_data (fst (main env fs))) = dr'"
  using assms
  by (simp_all add: main_def load_historical_data_def update_clone_summary_def make_summary_def)

lemma calculate_empty_batch:
  "calculate_cumulative_totals cutoff_at [] h = (cumulative_totals h, daily_records h, [])"
  by (simp add: calculate_cumulative_totals_def readings_def process_all_Nil)

text \<open>
  C10 (the two counts of tracked repositories). In the summary a completed run writes,
  \<^verbatim>\<open>period_stats.repositories_tracked\<close> is the number of reports of the batch, which is the
  number of repositories whose traffic was fetched without an exception;
  \<^verbatim>\<open>cumulative_stats.repositories_tracked\<close> is the number of repositories that are in the
  loaded state or in the batch. The two differ as soon as a stored repository has no
  report, as in the run below (1 and 2).
\<close>

theorem repositories_tracked_counts:
  assumes "get_clone_stats env = Inr (clone_data, ts, today)" and "clone_data \<noteq> []"
    and "distinct (map fst (cumulative_totals (load_historical_data fs)))"
  shows "\<exists>S. summary_file (fst (main env fs)) = Some (Written S)
       \<and> repositories_tracked (period_stats S) = length clone_data
       \<and> (\<forall>repos. get_repos env = Inr repos \<longrightarrow>
             length clone_data = length (filter (\<lambda>p. \<not> isl (snd p)) repos))
       \<and> repositories_tracked (cumulative_stats S)
           = card (fst ` set (cumulative_totals (load_historical_data fs))
                   \<union> repo_name ` set clone_data)"
proof -
  let ?h = "load_historical_data fs"
  obtain cum' dr' out where run: "calculate_cumulative_totals (now_cutoff_date env) clone_data ?h
      = (cum', dr', out)"
    by (cases "calculate_cumulative_totals (now_cutoff_date env) clone_data ?h") auto
  let ?S = "make_summary clone_data ts today cum' dr'"
  have written: "summary_file (fst (main env fs)) = Some (Written ?S)"
    using assms(1,2) by (simp add: main_def run update_clone_summary_def update_csv_def)
  have per: "repositories_tracked (period_stats ?S) = length clone_data"
    by (simp add: make_summary_def)
  have succ: "length clone_data = length (filter (\<lambda>p. \<not> isl (snd p)) repos)"
    if "get_repos env = Inr repos" for repos
    using get_clone_stats_Inr[OF assms(1)] that by (auto simp add: fetch_length)
  note keys = batch_keys[OF run[unfolded calculate_cumulative_totals_def]]
  have dis: "distinct (map fst cum')" using keys assms(3) by simp
  have "repositories_tracked (cumulative_stats ?S) = length (map fst cum')"
    by (simp add: make_summary_def)
  also have "\<dots> = card (set (map fst cum'))"
    by (rule distinct_card[OF dis, symmetric])
  also have "set (map fst cum')
      = fst ` set (cumulative_totals ?h) \<union> repo_name ` set clone_data"
    using keys by (simp add: readings_set_snd)
  finally show ?thesis using written per succ by blast
qed

theorem repositories_tracked_counts_witness:
  "get_clone_stats example_environment
     = Inr ([scenario_report_2], ''2024-01-04 06:00:00'', ''2024-01-04'')
   \<and> load_historical_data example_files = two_repo_state
   \<and> (\<exists>S. summary_file (fst (main example_environment example_files)) = Some (Written S)
        \<and> repositories_tracked (period_stats S) = 1
        \<and> repositories_tracked (cumulative_stats S) = 2)"
proof -
  have g: "get_clone_stats example_environment
     = Inr ([scenario_report_2], ''2024-01-04 06:00:00'', ''2024-01-04'')"
    by (simp add: get_clone_stats_def example_environment_def scenario_report_2_def)
  have ne: "[scenario_report_2] \<noteq> []" by simp
  have l: "load_historical_data example_files = two_repo_state"
    by (simp add: load_historical_data_def example_files_def make_summary_def two_repo_state_def)
  have d: "distinct (map fst (cumulative_totals (load_historical_data example_files)))"
    by (simp add: l two_repo_state_def)
  have k: "card (fst ` set (cumulative_totals (load_historical_data example_files))
       \<union> repo_name ` set [scenario_report_2]) = 2"
    by (simp add: l two_repo_state_def scenario_report_2_def insert_commute)
  from repositories_tracked_counts[OF g ne d] g l k show ?thesis by auto
qed

end
